theory Spec2Isabelle
  imports Main
begin

section \<open>Values handed to the builder\<close>

text \<open>
  The first positional argument of \<^verbatim>\<open>path\<close> and of every verb method is either left
  out, a string, or a function. Functions are values with an identity; what a function does
  when it is called with the builder is a finite sequence of calls on that builder
  (\<^verbatim>\<open>path\<close>, \<^verbatim>\<open>end\<close>, or a verb method looked up by property name). A request
  handler, which never touches the builder, has the empty body.
\<close>

datatype 'f arg = Undefined | Str string | Function 'f

datatype fn = Fn nat "call list"
and call = Path "fn arg" "fn list" | End | Verb string "fn arg" "fn list"

primrec fn_body :: "fn \<Rightarrow> call list" where
  "fn_body (Fn i b) = b"

section \<open>Path elements, the heap and the builder\<close>

type_synonym addr = nat

text \<open>An entry of \<^verbatim>\<open>element[method]\<close>: the object \<^verbatim>\<open>{uri, middlewares}\<close>. The
  uri is \<^verbatim>\<open>undefined\<close> (\<open>None\<close>) when a verb method is called without arguments.\<close>

record operation =
  op_uri :: "string option"
  op_middlewares :: "fn list"

text \<open>The object made by \<^verbatim>\<open>createPathElement\<close>. The per-method arrays
  \<^verbatim>\<open>pathElement[method]\<close> are the field \<open>verbs\<close>.\<close>

record pathElement =
  visited :: bool
  parentElement :: "addr option"
  children :: "addr list"
  middlewares :: "fn list"
  uri :: string
  verbs :: "string \<Rightarrow> operation list"

text \<open>The external router is the log of the registrations it has received: verb, path,
  handler chain.\<close>

type_synonym registration = "string \<times> string \<times> fn list"

text \<open>
  The state seen by a method: the heap of path elements with its allocation pointer, and the
  receiver \<^verbatim>\<open>this\<close>, given by whether it is an \<^verbatim>\<open>ApiBuilder\<close> instance and by its
  properties \<^verbatim>\<open>currentElement\<close> and \<^verbatim>\<open>router\<close>. The source file is a CommonJS
  module without a strict-mode directive, so a method called without a receiver runs with
  the global object as \<^verbatim>\<open>this\<close>: a receiver that is not an instance and has neither
  property.
\<close>

record builder =
  heap :: "addr \<Rightarrow> pathElement"
  fresh :: addr
  this_instance :: bool
  currentElement :: "addr option"
  router :: "registration list option"

datatype error = Error string | TypeError

definition createPathElement :: "addr option \<Rightarrow> string \<Rightarrow> fn list \<Rightarrow> pathElement" where
  "createPathElement cur u mws =
     \<lparr>visited = False, parentElement = cur, children = [], middlewares = mws,
      uri = u, verbs = (\<lambda>method. [])\<rparr>"

definition ApiBuilder :: "registration list option \<Rightarrow> builder" where
  "ApiBuilder options =
     \<lparr>heap = (\<lambda>a. createPathElement None [] []), fresh = 1, this_instance = True,
      currentElement = Some 0, router = options\<rparr>"

text \<open>The receiver of a call made without one, in a heap \<open>h\<close> whose next free address
  is \<open>n\<close>.\<close>

definition globalThis :: "(addr \<Rightarrow> pathElement) \<Rightarrow> addr \<Rightarrow> builder" where
  "globalThis h n =
     \<lparr>heap = h, fresh = n, this_instance = False, currentElement = None, router = None\<rparr>"

section \<open>Declaring verbs and groups\<close>

text \<open>The prototype has one method per entry of the list \<open>ms\<close> exported by the
  \<^verbatim>\<open>methods\<close> package, and \<^verbatim>\<open>del\<close>, which is the method made for
  \<^verbatim>\<open>delete\<close>.\<close>

definition lookup_method :: "string list \<Rightarrow> string \<Rightarrow> string option" where
  "lookup_method ms name =
     (if name = ''del'' then (if ''delete'' \<in> set ms then Some ''delete'' else None)
      else if name \<in> set ms then Some name else None)"

definition verb_method :: "string \<Rightarrow> fn arg \<Rightarrow> fn list \<Rightarrow> builder \<Rightarrow> error + builder" where
  "verb_method method u mws s =
     (if \<not> this_instance s then Inl (Error ''don't destructure the builder'')
      else
        let (u', mws') = (case u of Function f \<Rightarrow> (Some [], f # mws)
                                   | Str x \<Rightarrow> (Some x, mws)
                                   | Undefined \<Rightarrow> (None, mws))
        in case currentElement s of
             None \<Rightarrow> Inl TypeError
           | Some c \<Rightarrow>
               Inr (s\<lparr>heap := (heap s)(c := (heap s c)\<lparr>verbs := (verbs (heap s c))
                      (method := verbs (heap s c) method @
                         [\<lparr>op_uri = u', op_middlewares = mws'\<rparr>])\<rparr>)\<rparr>))"

text \<open>The method \<^verbatim>\<open>end\<close>.\<close>

definition end_group :: "builder \<Rightarrow> builder" where
  "end_group s =
     (case currentElement s of
        None \<Rightarrow> s
      | Some c \<Rightarrow> (case parentElement (heap s c) of
                     None \<Rightarrow> s
                   | Some p \<Rightarrow> s\<lparr>currentElement := Some p\<rparr>))"

text \<open>The first lines of \<^verbatim>\<open>path\<close>: the default of \<^verbatim>\<open>uri\<close> and the case of a
  function in first position.\<close>

definition path_args :: "fn arg \<Rightarrow> fn list \<Rightarrow> string \<times> fn list" where
  "path_args u mws =
     (case u of Function f \<Rightarrow> ([], f # mws) | Str x \<Rightarrow> (x, mws) | Undefined \<Rightarrow> ([], mws))"

text \<open>The middle of \<^verbatim>\<open>path\<close>: the new element is made, pushed on the children of the
  current element when there is one, and becomes the current element.\<close>

definition enter :: "string \<Rightarrow> fn list \<Rightarrow> builder \<Rightarrow> builder" where
  "enter u mws s =
     (let a = fresh s;
          h1 = (heap s)(a := createPathElement (currentElement s) u mws);
          h2 = (case currentElement s of
                  None \<Rightarrow> h1
                | Some c \<Rightarrow> h1(c := (h1 c)\<lparr>children := children (h1 c) @ [a]\<rparr>))
      in s\<lparr>heap := h2, fresh := Suc a, currentElement := Some a\<rparr>)"

text \<open>
  \<open>exec\<close> is one call: the function that the prototype holds under the name, applied
  with the receiver of the state as \<^verbatim>\<open>this\<close>. \<open>run\<close> is a sequence of calls (a
  chain \<^verbatim>\<open>b.path(..).get(..)\<close>, or the statements of a callback); a thrown error ends
  the sequence. The \<open>Path\<close> case is the method \<^verbatim>\<open>path\<close>: the last function of
  the argument list is popped and, when there is one, called with the receiver, after which
  \<^verbatim>\<open>this.end()\<close> is called, which only an instance has. A name for which the
  prototype has no function is a \<^verbatim>\<open>TypeError\<close>. All the calls of one sequence,
  those of the callbacks included, have the same receiver: the builder, or the global
  object for functions taken off the builder.
\<close>

function exec :: "string list \<Rightarrow> call \<Rightarrow> builder \<Rightarrow> error + builder"
and run :: "string list \<Rightarrow> call list \<Rightarrow> builder \<Rightarrow> error + builder" where
  "run ms [] s = Inr s"
| "run ms (c # cs) s = (case exec ms c s of Inl e \<Rightarrow> Inl e | Inr s' \<Rightarrow> run ms cs s')"
| "exec ms End s = Inr (end_group s)"
| "exec ms (Verb name u mws) s =
     (case lookup_method ms name of
        None \<Rightarrow> Inl TypeError
      | Some method \<Rightarrow> verb_method method u mws s)"
| "exec ms (Path u mws) s =
     (let (u', mws1) = path_args u mws;
          s1 = enter u' (butlast mws1) s
      in if mws1 = [] then Inr s1
         else (case run ms (fn_body (last mws1)) s1 of
                 Inl e \<Rightarrow> Inl e
               | Inr s2 \<Rightarrow> if this_instance s2 then Inr (end_group s2) else Inl TypeError))"
  by pat_completeness auto
termination
proof (relation "measure (\<lambda>x. case x of Inl (ms, c, s) \<Rightarrow> size c
                                        | Inr (ms, cs, s) \<Rightarrow> size_list size cs)", goal_cases)
  case 1 show ?case by simp
next
  case 2 then show ?case by simp
next
  case 3 then show ?case by simp
next
  case (4 ms u mws s x u' mws1 s1)
  have body: "size_list size (fn_body f) < size f" for f
    by (cases f) simp
  have last_le: "xs \<noteq> [] \<Longrightarrow> size (last xs) \<le> size_list size xs" for xs :: "fn list"
    by (induction xs) auto
  have "path_args u mws = (u', mws1)"
    using 4 by simp
  then have args: "size_list size mws1 \<le> size_arg size u + size_list size mws"
    by (cases u) (auto simp: path_args_def)
  have "size_list size (fn_body (last mws1)) < size (last mws1)"
    by (rule body)
  also have "\<dots> \<le> size_list size mws1"
    using 4 by (intro last_le)
  finally show ?case
    using args by simp
qed

section \<open>Flattening\<close>

text \<open>The loop of \<^verbatim>\<open>mountUri\<close>, which follows \<^verbatim>\<open>parentElement\<close> until it is
  null. On a heap whose parent links form a cycle it does not return.\<close>

partial_function (option) mountUri_walk ::
  "(addr \<Rightarrow> pathElement) \<Rightarrow> addr option \<Rightarrow> string list \<Rightarrow> string list option" where
  "mountUri_walk h current path =
     (case current of
        None \<Rightarrow> Some path
      | Some c \<Rightarrow> mountUri_walk h (parentElement (h c)) (uri (h c) # path))"

declare mountUri_walk.simps [code]

text \<open>\<^verbatim>\<open>join\<close> prints an undefined entry as the empty string.\<close>

definition uri_text :: "string option \<Rightarrow> string" where
  "uri_text u = (case u of None \<Rightarrow> [] | Some x \<Rightarrow> x)"

definition mountUri :: "(addr \<Rightarrow> pathElement) \<Rightarrow> addr \<Rightarrow> operation \<Rightarrow> string option" where
  "mountUri h element oper =
     (case mountUri_walk h (Some element) [] of
        None \<Rightarrow> None
      | Some path \<Rightarrow> Some (concat (path @ [uri_text (op_uri oper)])))"

function drain ::
  "string \<Rightarrow> registration list \<Rightarrow> (addr \<Rightarrow> pathElement) \<Rightarrow> addr
     \<Rightarrow> ((addr \<Rightarrow> pathElement) \<times> registration list) option" where
  "drain verb rt h element =
     (if verbs (h element) verb = [] then Some (h, rt)
      else
        let oper = last (verbs (h element) verb);
            h' = h(element := (h element)\<lparr>verbs := (verbs (h element))
                     (verb := butlast (verbs (h element) verb))\<rparr>)
        in case mountUri h' element oper of
             None \<Rightarrow> None
           | Some p \<Rightarrow>
               drain verb (rt @ [(verb, p, middlewares (h' element) @ op_middlewares oper)])
                 h' element)"
  by pat_completeness auto
termination
  by (relation "measure (\<lambda>(verb, rt, h, element). length (verbs (h element) verb))") auto

declare drain.simps [simp del]

text \<open>The loop \<^verbatim>\<open>for (const method of methods) drain(method, router, element)\<close>.\<close>

fun drain_methods ::
  "string list \<Rightarrow> registration list \<Rightarrow> (addr \<Rightarrow> pathElement) \<Rightarrow> addr
     \<Rightarrow> ((addr \<Rightarrow> pathElement) \<times> registration list) option" where
  "drain_methods [] rt h element = Some (h, rt)"
| "drain_methods (method # ms) rt h element =
     (case drain method rt h element of
        None \<Rightarrow> None
      | Some (h', rt') \<Rightarrow> drain_methods ms rt' h' element)"

text \<open>The \<^verbatim>\<open>while (element)\<close> loop of \<^verbatim>\<open>build\<close>; \<open>None\<close> is a run that never
  leaves the loop.\<close>

partial_function (option) build_loop ::
  "string list \<Rightarrow> addr option \<Rightarrow> (addr \<Rightarrow> pathElement) \<Rightarrow> registration list
     \<Rightarrow> ((addr \<Rightarrow> pathElement) \<times> registration list) option" where
  "build_loop ms element h rt =
     (case element of
        None \<Rightarrow> Some (h, rt)
      | Some e0 \<Rightarrow>
          (case (if visited (h e0) then parentElement (h e0) else Some e0) of
             None \<Rightarrow> Some (h, rt)
           | Some e \<Rightarrow>
               (case drain_methods ms rt h e of
                  None \<Rightarrow> None
                | Some (h1, rt1) \<Rightarrow>
                    if children (h1 e) = []
                    then build_loop ms (Some e) (h1(e := (h1 e)\<lparr>visited := True\<rparr>)) rt1
                    else
                      let child = last (children (h1 e));
                          h2 = h1(e := (h1 e)\<lparr>children := butlast (children (h1 e))\<rparr>);
                          h3 = h2(child := (h2 child)\<lparr>middlewares :=
                                  middlewares (h2 e) @ middlewares (h2 child)\<rparr>)
                      in build_loop ms (Some child) h3 rt1)))"

declare build_loop.simps [code]

text \<open>\<^verbatim>\<open>build\<close> returns the router: the one given to the constructor, which then
  holds the new registrations too, or a new one. The current element of the builder is left
  as it is.\<close>

definition build :: "string list \<Rightarrow> builder \<Rightarrow> (registration list \<times> builder) option" where
  "build ms s =
     (let router0 = (case router s of None \<Rightarrow> [] | Some r \<Rightarrow> r)
      in case build_loop ms (currentElement s) (heap s) router0 of
           None \<Rightarrow> None
         | Some (h, r) \<Rightarrow>
             Some (r, s\<lparr>heap := h,
                        router := (case router s of None \<Rightarrow> None | Some r0 \<Rightarrow> Some r)\<rparr>))"

section \<open>Paths and registrations of an element\<close>

text \<open>\<open>root_chain h None as\<close>: the list \<open>as\<close> starts at an element without parent
  and each further element has the one before it as \<^verbatim>\<open>parentElement\<close>: the ancestors
  of its last element, root first, that element included.\<close>

fun root_chain :: "(addr \<Rightarrow> pathElement) \<Rightarrow> addr option \<Rightarrow> addr list \<Rightarrow> bool" where
  "root_chain h p [] = True"
| "root_chain h p (a # as) = (parentElement (h a) = p \<and> root_chain h (Some a) as)"

text \<open>The uri fragments of a list of elements, concatenated with nothing in between.\<close>

definition joined :: "(addr \<Rightarrow> pathElement) \<Rightarrow> addr list \<Rightarrow> string" where
  "joined h as = concat (map (\<lambda>a. uri (h a)) as)"

definition path_to :: "(addr \<Rightarrow> pathElement) \<Rightarrow> addr \<Rightarrow> string \<Rightarrow> bool" where
  "path_to h a P \<longleftrightarrow> (\<exists>as. root_chain h None (as @ [a]) \<and> P = joined h (as @ [a]))"

text \<open>What draining the methods \<open>ms\<close>, in this order, registers for an element whose
  per-method arrays are \<open>ops\<close>, whose path is \<open>P\<close> and whose stored middlewares are
  \<open>m\<close>; and the element once drained.\<close>

fun node_regs ::
  "string list \<Rightarrow> (string \<Rightarrow> operation list) \<Rightarrow> string \<Rightarrow> fn list \<Rightarrow> registration list" where
  "node_regs [] ops P m = []"
| "node_regs (v # ms) ops P m =
     map (\<lambda>oper. (v, P @ uri_text (op_uri oper), m @ op_middlewares oper)) (rev (ops v)) @
     node_regs ms (ops(v := [])) P m"

definition drained :: "string list \<Rightarrow> pathElement \<Rightarrow> pathElement" where
  "drained ms e = e\<lparr>verbs := (\<lambda>v. if v \<in> set ms then [] else verbs e v)\<rparr>"

definition same_links :: "(addr \<Rightarrow> pathElement) \<Rightarrow> (addr \<Rightarrow> pathElement) \<Rightarrow> bool" where
  "same_links h h' \<longleftrightarrow>
     (\<forall>x. parentElement (h' x) = parentElement (h x) \<and> uri (h' x) = uri (h x))"

text \<open>The element the loop of \<^verbatim>\<open>build\<close> works on when an iteration starts with
  \<open>e0\<close>.\<close>

definition arrives :: "(addr \<Rightarrow> pathElement) \<Rightarrow> addr \<Rightarrow> addr \<Rightarrow> bool" where
  "arrives h e0 a \<longleftrightarrow> (if visited (h e0) then parentElement (h e0) else Some e0) = Some a"

section \<open>The declared tree\<close>

text \<open>
  The shape of a group and of the groups declared inside it: the address of its element and
  the shapes of its children in declaration order. \<open>closed h t\<close> says that the heap holds
  this shape, not yet visited. \<open>down_regs\<close> is the sequence of registrations of the
  subtree when the loop enters it with \<open>m\<close> stored as the middlewares of its root:
  the operations of the root, then the children from the last declared to the first.
\<close>

datatype atree = T addr "atree list"

primrec addr_of :: "atree \<Rightarrow> addr" where
  "addr_of (T a ts) = a"

primrec kids :: "atree \<Rightarrow> atree list" where
  "kids (T a ts) = ts"

fun nodes :: "atree \<Rightarrow> addr list" where
  "nodes (T a ts) = a # concat (map nodes ts)"

fun closed :: "(addr \<Rightarrow> pathElement) \<Rightarrow> atree \<Rightarrow> bool" where
  "closed h (T a ts) \<longleftrightarrow>
     \<not> visited (h a) \<and> children (h a) = map addr_of ts \<and>
     (\<forall>t\<in>set ts. parentElement (h (addr_of t)) = Some a \<and> closed h t)"

fun down_regs ::
  "string list \<Rightarrow> (addr \<Rightarrow> pathElement) \<Rightarrow> string \<Rightarrow> fn list \<Rightarrow> atree \<Rightarrow> registration list" where
  "down_regs ms h P m (T a ts) =
     node_regs ms (verbs (h a)) P m @
     concat (map (\<lambda>c. down_regs ms h (P @ uri (h (addr_of c)))
                         (m @ middlewares (h (addr_of c))) c) (rev ts))"

text \<open>The heap after the loop has gone through the elements \<open>X\<close>.\<close>

definition post :: "string list \<Rightarrow> addr set \<Rightarrow> (addr \<Rightarrow> pathElement) \<Rightarrow> (addr \<Rightarrow> pathElement) \<Rightarrow> bool" where
  "post ms X h h' \<longleftrightarrow>
     same_links h h' \<and> (\<forall>x. x \<notin> X \<longrightarrow> h' x = h x) \<and>
     (\<forall>x\<in>X. visited (h' x) \<and> children (h' x) = [] \<and> (\<forall>v\<in>set ms. verbs (h' x) v = []))"

definition keeps :: "(addr \<Rightarrow> pathElement) \<Rightarrow> (addr \<Rightarrow> pathElement) \<Rightarrow> addr \<Rightarrow> bool" where
  "keeps h h' x \<longleftrightarrow>
     visited (h' x) = visited (h x) \<and> children (h' x) = children (h x) \<and>
     verbs (h' x) = verbs (h x)"

definition finished :: "string list \<Rightarrow> (addr \<Rightarrow> pathElement) \<Rightarrow> addr \<Rightarrow> bool" where
  "finished ms h x \<longleftrightarrow>
     visited (h x) \<and> children (h x) = [] \<and> (\<forall>v\<in>set ms. verbs (h x) v = [])"

text \<open>
  A builder under construction is a stack of open groups, from the current element to the
  root: each with its address and the shapes of the children that are closed already; the
  group below it in the stack is its last child. \<open>up_regs\<close> is the sequence of
  registrations of \<^verbatim>\<open>build\<close> started on the top of the stack: each open group in
  turn, entered with the middlewares it declares itself.
\<close>

type_synonym frame = "addr \<times> atree list"

fun frames_ok :: "(addr \<Rightarrow> pathElement) \<Rightarrow> addr option \<Rightarrow> frame list \<Rightarrow> bool" where
  "frames_ok h below [] = (case below of None \<Rightarrow> False | Some b \<Rightarrow> parentElement (h b) = None)"
| "frames_ok h below ((a, ts) # fs) \<longleftrightarrow>
     \<not> visited (h a) \<and>
     (case below of
        None \<Rightarrow> children (h a) = map addr_of ts
      | Some b \<Rightarrow> parentElement (h b) = Some a \<and> children (h a) = map addr_of ts @ [b]) \<and>
     (\<forall>t\<in>set ts. parentElement (h (addr_of t)) = Some a \<and> closed h t) \<and>
     frames_ok h (Some a) fs"

definition all_nodes :: "frame list \<Rightarrow> addr list" where
  "all_nodes fs = concat (map (\<lambda>(a, ts). nodes (T a ts)) fs)"

fun up_regs :: "string list \<Rightarrow> (addr \<Rightarrow> pathElement) \<Rightarrow> frame list \<Rightarrow> registration list" where
  "up_regs ms h [] = []"
| "up_regs ms h ((a, ts) # fs) =
     down_regs ms h (joined h (rev (map fst fs) @ [a])) (middlewares (h a)) (T a ts) @
     up_regs ms h fs"

definition rep :: "builder \<Rightarrow> frame list \<Rightarrow> bool" where
  "rep s fs \<longleftrightarrow>
     this_instance s \<and> fs \<noteq> [] \<and> currentElement s = Some (fst (hd fs)) \<and>
     frames_ok (heap s) None fs \<and> distinct (all_nodes fs) \<and>
     set (all_nodes fs) = {..<fresh s}"

text \<open>The content of the router that \<^verbatim>\<open>build\<close> starts from.\<close>

definition given_router :: "builder \<Rightarrow> registration list" where
  "given_router s = (case router s of None \<Rightarrow> [] | Some r \<Rightarrow> r)"

section \<open>The registrations, element by element\<close>

text \<open>
  The registrations of \<^verbatim>\<open>build\<close> come in blocks, one per element: the element, its
  path and the middlewares stored in it when it is drained. \<open>pre_blocks\<close> and
  \<open>up_blocks\<close> list the blocks in the order of \<open>down_regs\<close> and \<open>up_regs\<close>;
  \<open>pre_order\<close> and \<open>up_order\<close> are the elements of these blocks.
\<close>

fun linked :: "(addr \<Rightarrow> pathElement) \<Rightarrow> atree \<Rightarrow> bool" where
  "linked h (T a ts) \<longleftrightarrow> (\<forall>t\<in>set ts. parentElement (h (addr_of t)) = Some a \<and> linked h t)"

type_synonym block = "addr \<times> string \<times> fn list"

fun pre_blocks :: "(addr \<Rightarrow> pathElement) \<Rightarrow> string \<Rightarrow> fn list \<Rightarrow> atree \<Rightarrow> block list" where
  "pre_blocks h P m (T a ts) =
     (a, P, m) #
     concat (map (\<lambda>c. pre_blocks h (P @ uri (h (addr_of c)))
                         (m @ middlewares (h (addr_of c))) c) (rev ts))"

fun up_blocks :: "(addr \<Rightarrow> pathElement) \<Rightarrow> frame list \<Rightarrow> block list" where
  "up_blocks h [] = []"
| "up_blocks h ((a, ts) # fs) =
     pre_blocks h (joined h (rev (map fst fs) @ [a])) (middlewares (h a)) (T a ts) @
     up_blocks h fs"

definition block_regs :: "string list \<Rightarrow> (addr \<Rightarrow> pathElement) \<Rightarrow> block \<Rightarrow> registration list" where
  "block_regs ms h b = (case b of (x, P, m) \<Rightarrow> node_regs ms (verbs (h x)) P m)"

fun pre_order :: "atree \<Rightarrow> addr list" where
  "pre_order (T a ts) = a # concat (map pre_order (rev ts))"

definition up_order :: "frame list \<Rightarrow> addr list" where
  "up_order fs = concat (map (\<lambda>(a, ts). pre_order (T a ts)) fs)"

text \<open>
  \<open>wf_links\<close>: every element below the allocation pointer that has a parent is in the
  children of that parent. A set of elements is \<open>child_closed\<close> when it holds the
  children of its members; \<open>splits_at h xs cj ci\<close> cuts the list \<open>xs\<close> in two, with
  \<open>cj\<close> and all that is below it in the first part and \<open>ci\<close> and all that is below it
  in the second.
\<close>

definition wf_links :: "(addr \<Rightarrow> pathElement) \<Rightarrow> addr \<Rightarrow> bool" where
  "wf_links h n \<longleftrightarrow>
     (\<forall>x<n. \<forall>p. parentElement (h x) = Some p \<longrightarrow> p < n \<and> x \<in> set (children (h p)))"

definition child_closed :: "(addr \<Rightarrow> pathElement) \<Rightarrow> addr set \<Rightarrow> bool" where
  "child_closed h S \<longleftrightarrow> (\<forall>z\<in>S. set (children (h z)) \<subseteq> S)"

definition links_ok :: "builder \<Rightarrow> bool" where
  "links_ok s \<longleftrightarrow>
     (\<forall>c. currentElement s = Some c \<longrightarrow> c < fresh s) \<and> wf_links (heap s) (fresh s)"

definition splits_at :: "(addr \<Rightarrow> pathElement) \<Rightarrow> addr list \<Rightarrow> addr \<Rightarrow> addr \<Rightarrow> bool" where
  "splits_at h xs cj ci \<longleftrightarrow>
     (\<exists>A B Sj Si. xs = A @ B \<and>
        cj \<in> Sj \<and> child_closed h Sj \<and> Sj \<subseteq> set A \<and>
        ci \<in> Si \<and> child_closed h Si \<and> Si \<subseteq> set B)"

text \<open>The state after \<^verbatim>\<open>b.get(h1).get(h2).path('/a', g => g.get('/x', h3)).path('/b', g => g.get(h4))\<close>
  on a new builder \<^verbatim>\<open>b\<close>.\<close>

definition example_state :: builder where
  "example_state =
     projr (run [''get'']
       [Verb ''get'' Undefined [Fn 1 []], Verb ''get'' Undefined [Fn 2 []],
        Path (Str ''/a'') [Fn 8 [Verb ''get'' (Str ''/x'') [Fn 3 []]]],
        Path (Str ''/b'') [Fn 9 [Verb ''get'' Undefined [Fn 4 []]]]]
       (ApiBuilder None))"

section \<open>What the declarations leave alone\<close>

text \<open>\<open>extends s s'\<close>: the state \<open>s'\<close> has the elements of \<open>s\<close>, with the
  parent, middlewares, uri and visited mark they had in \<open>s\<close>, and the same receiver and
  router.\<close>

definition extends :: "builder \<Rightarrow> builder \<Rightarrow> bool" where
  "extends s s' \<longleftrightarrow>
     fresh s \<le> fresh s' \<and> this_instance s' = this_instance s \<and> router s' = router s \<and>
     (\<forall>a<fresh s. parentElement (heap s' a) = parentElement (heap s a) \<and>
                  middlewares (heap s' a) = middlewares (heap s a) \<and>
                  uri (heap s' a) = uri (heap s a) \<and>
                  visited (heap s' a) = visited (heap s a))"

section \<open>Lemmas on declarations\<close>

lemma extends_refl: "extends s s"
  by (simp add: extends_def)

lemma extends_trans: "extends s s' \<Longrightarrow> extends s' s'' \<Longrightarrow> extends s s''"
  by (auto simp: extends_def)

lemma extends_end_group: "extends s (end_group s)"
  by (auto simp: extends_def end_group_def split: option.splits)

lemma extends_enter: "extends s (enter u mws s)"
  by (auto simp: extends_def enter_def Let_def split: option.splits)

lemma extends_verb_method: "verb_method m u mws s = Inr s' \<Longrightarrow> extends s s'"
  by (auto simp: extends_def verb_method_def Let_def split: option.splits if_splits arg.splits)

lemma exec_run_extends:
  shows "exec ms c s = Inr s' \<Longrightarrow> extends s s'"
    and "run ms cs s = Inr s' \<Longrightarrow> extends s s'"
proof (induction ms c s and ms cs s arbitrary: s' and s' rule: exec_run.induct)
  case (1 ms s)
  then show ?case by (simp add: extends_refl)
next
  case (2 ms c cs s)
  then show ?case by (auto split: sum.splits intro: extends_trans)
next
  case (3 ms s)
  then show ?case by (auto simp: extends_end_group)
next
  case (4 ms name u mws s)
  then show ?case by (auto split: option.splits intro: extends_verb_method)
next
  case (5 ms u mws s)
  obtain u' mws1 where pa: "path_args u mws = (u', mws1)" by (cases "path_args u mws")
  show ?case
  proof (cases "mws1 = []")
    case True
    with 5 pa show ?thesis by (auto simp: extends_enter)
  next
    case False
    with 5(2) pa obtain s2 where r: "run ms (fn_body (last mws1)) (enter u' (butlast mws1) s) = Inr s2"
      and s': "s' = end_group s2"
      by (auto split: sum.splits if_splits)
    from 5(1)[OF pa[symmetric] refl refl False r] have "extends (enter u' (butlast mws1) s) s2" .
    with extends_enter[of s u' "butlast mws1"] have "extends s s2" by (rule extends_trans)
    then show ?thesis unfolding s' using extends_end_group by (rule extends_trans)
  qed
qed

lemma exec_Path:
  "path_args u mws = (u', mws1) \<Longrightarrow>
   exec ms (Path u mws) s =
     (if mws1 = [] then Inr (enter u' (butlast mws1) s)
      else (case run ms (fn_body (last mws1)) (enter u' (butlast mws1) s) of
              Inl e \<Rightarrow> Inl e
            | Inr s2 \<Rightarrow> if this_instance s2 then Inr (end_group s2) else Inl TypeError))"
  by simp

lemma enter_fields:
  "fresh (enter u mws s) = Suc (fresh s)"
  "currentElement (enter u mws s) = Some (fresh s)"
  "this_instance (enter u mws s) = this_instance s"
  "parentElement (heap (enter u mws s) (fresh s)) = currentElement s"
  "middlewares (heap (enter u mws s) (fresh s)) = mws"
  "uri (heap (enter u mws s) (fresh s)) = u"
  by (auto simp: enter_def Let_def createPathElement_def split: option.splits)

section \<open>Lemmas on flattening\<close>

lemma root_chain_append:
  "root_chain h p (as @ bs) \<longleftrightarrow>
     root_chain h p as \<and> root_chain h (if as = [] then p else Some (last as)) bs"
  by (induction as arbitrary: p) auto

lemma mountUri_walk_chain:
  "root_chain h None (as @ [a]) \<Longrightarrow>
   mountUri_walk h (Some a) acc = Some (map (\<lambda>a. uri (h a)) (as @ [a]) @ acc)"
proof (induction as arbitrary: a acc rule: rev_induct)
  case Nil
  then show ?case
    by (subst mountUri_walk.simps, subst mountUri_walk.simps) simp
next
  case (snoc b bs)
  from snoc.prems have par: "parentElement (h a) = Some b" and ch: "root_chain h None (bs @ [b])"
    by (auto simp: root_chain_append)
  show ?case
    using par snoc.IH [OF ch] by (subst mountUri_walk.simps) simp
qed

lemma mountUri_path:
  "path_to h a P \<Longrightarrow> mountUri h a oper = Some (P @ uri_text (op_uri oper))"
  by (auto simp: path_to_def mountUri_def joined_def mountUri_walk_chain)

lemma root_chain_cong:
  "(\<And>x. x \<in> set as \<Longrightarrow> parentElement (h' x) = parentElement (h x)) \<Longrightarrow>
   root_chain h' p as = root_chain h p as"
  by (induction as arbitrary: p) auto

lemma joined_cong:
  "(\<And>x. x \<in> set as \<Longrightarrow> uri (h' x) = uri (h x)) \<Longrightarrow> joined h' as = joined h as"
  by (auto simp: joined_def intro: arg_cong [where f = concat])

lemma path_to_links: "same_links h h' \<Longrightarrow> path_to h' a P = path_to h a P"
proof -
  assume l: "same_links h h'"
  have "root_chain h' p as = root_chain h p as" for p as
    using l by (intro root_chain_cong) (simp add: same_links_def)
  moreover have "joined h' as = joined h as" for as
    using l by (intro joined_cong) (simp add: same_links_def)
  ultimately show ?thesis by (simp add: path_to_def)
qed

lemma drain_regs:
  assumes "path_to h a P"
  shows "drain v rt h a =
           Some (h(a := (h a)\<lparr>verbs := (verbs (h a))(v := [])\<rparr>),
                 rt @ map (\<lambda>oper. (v, P @ uri_text (op_uri oper),
                                    middlewares (h a) @ op_middlewares oper))
                        (rev (verbs (h a) v)))"
  using assms
proof (induction "verbs (h a) v" arbitrary: h rt rule: rev_induct)
  case Nil
  have "h(a := (h a)\<lparr>verbs := (verbs (h a))(v := [])\<rparr>) = h"
    using Nil(1) [symmetric] by (simp add: fun_upd_idem)
  with Nil show ?case
    by (subst drain.simps) simp
next
  case (snoc oper ops)
  let ?h' = "h(a := (h a)\<lparr>verbs := (verbs (h a))(v := ops)\<rparr>)"
  have links: "same_links h ?h'"
    by (simp add: same_links_def)
  then have p': "path_to ?h' a P"
    using snoc.prems by (simp add: path_to_links)
  have v': "ops = verbs (?h' a) v"
    by simp
  have step: "drain v rt h a =
      drain v (rt @ [(v, P @ uri_text (op_uri oper), middlewares (h a) @ op_middlewares oper)]) ?h' a"
    using snoc.hyps(2) [symmetric] mountUri_path [OF p']
    by (subst drain.simps) (simp add: Let_def)
  show ?case
    unfolding step snoc.hyps(1) [OF v' p'] using snoc.hyps(2) [symmetric] by simp
qed

lemma drain_methods_regs:
  assumes "path_to h a P"
  shows "drain_methods ms rt h a =
           Some (h(a := drained ms (h a)),
                 rt @ node_regs ms (verbs (h a)) P (middlewares (h a)))"
  using assms
proof (induction ms arbitrary: h rt)
  case Nil
  have "h(a := drained [] (h a)) = h"
    by (simp add: drained_def)
  then show ?case by simp
next
  case (Cons v ms)
  let ?h' = "h(a := (h a)\<lparr>verbs := (verbs (h a))(v := [])\<rparr>)"
  have "same_links h ?h'"
    by (simp add: same_links_def)
  then have p': "path_to ?h' a P"
    using Cons.prems by (simp add: path_to_links)
  let ?R = "map (\<lambda>oper. (v, P @ uri_text (op_uri oper), middlewares (h a) @ op_middlewares oper))
              (rev (verbs (h a) v))"
  have eq: "?h'(a := drained ms (?h' a)) = h(a := drained (v # ms) (h a))"
    by (auto simp: drained_def fun_eq_iff)
  have 1: "drain v rt h a = Some (?h', rt @ ?R)"
    by (rule drain_regs [OF Cons.prems])
  have 2: "drain_methods ms (rt @ ?R) ?h' a =
             Some (?h'(a := drained ms (?h' a)),
                   (rt @ ?R) @ node_regs ms (verbs (?h' a)) P (middlewares (?h' a)))"
    by (rule Cons.IH [OF p'])
  have 3: "verbs (?h' a) = (verbs (h a))(v := [])" "middlewares (?h' a) = middlewares (h a)"
    by simp_all
  show ?case
    unfolding drain_methods.simps 1 option.case prod.case 2 3 eq by (simp add: fun_eq_iff)
qed

lemma loop_step_leaf:
  assumes "arrives h e0 a" and "path_to h a P" and "children (h a) = []"
  shows "build_loop ms (Some e0) h rt =
           build_loop ms (Some a) (h(a := (drained ms (h a))\<lparr>visited := True\<rparr>))
             (rt @ node_regs ms (verbs (h a)) P (middlewares (h a)))"
proof -
  have ch: "children (drained ms (h a)) = []"
    using assms(3) by (simp add: drained_def)
  show ?thesis
    using assms(1) ch unfolding arrives_def
    by (subst build_loop.simps) (simp add: drain_methods_regs [OF assms(2)])
qed

lemma loop_step_child:
  assumes "arrives h e0 a" and "path_to h a P" and "children (h a) = cs @ [c]" and "c \<noteq> a"
  shows "build_loop ms (Some e0) h rt =
           build_loop ms (Some c)
             (h(a := (drained ms (h a))\<lparr>children := cs\<rparr>,
                c := (h c)\<lparr>middlewares := middlewares (h a) @ middlewares (h c)\<rparr>))
             (rt @ node_regs ms (verbs (h a)) P (middlewares (h a)))"
proof -
  have ch: "children (drained ms (h a)) = cs @ [c]" "middlewares (drained ms (h a)) = middlewares (h a)"
    using assms(3) by (simp_all add: drained_def)
  show ?thesis
    using assms(1,4) ch unfolding arrives_def
    by (subst build_loop.simps) (simp add: drain_methods_regs [OF assms(2)] Let_def)
qed

lemma loop_exit:
  "visited (h e0) \<Longrightarrow> parentElement (h e0) = None \<Longrightarrow> build_loop ms (Some e0) h rt = Some (h, rt)"
  by (subst build_loop.simps) simp

lemma addr_of_in_nodes: "addr_of t \<in> set (nodes t)"
  by (cases t) simp

lemma nodes_kid_subset: "c \<in> set ts \<Longrightarrow> set (nodes c) \<subseteq> set (concat (map nodes ts))"
  by auto

lemma closed_cong:
  "(\<And>x. x \<in> set (nodes t) \<Longrightarrow>
        visited (h' x) = visited (h x) \<and> children (h' x) = children (h x) \<and>
        parentElement (h' x) = parentElement (h x)) \<Longrightarrow>
   closed h' t = closed h t"
proof (induction t)
  case (T a ts)
  have "closed h' c = closed h c" if "c \<in> set ts" for c
    using that T.prems by (intro T.IH) auto
  moreover have "parentElement (h' (addr_of c)) = parentElement (h (addr_of c))" if "c \<in> set ts" for c
    using that T.prems [of "addr_of c"] addr_of_in_nodes [of c] by auto
  ultimately show ?case
    using T.prems [of a] by auto
qed

lemma down_regs_cong:
  "(\<And>x. x \<in> set (nodes t) \<Longrightarrow> verbs (h' x) = verbs (h x) \<and> uri (h' x) = uri (h x)) \<Longrightarrow>
   (\<And>x. x \<in> set (concat (map nodes (kids t))) \<Longrightarrow> middlewares (h' x) = middlewares (h x)) \<Longrightarrow>
   down_regs ms h' P m t = down_regs ms h P m t"
proof (induction t arbitrary: P m)
  case (T a ts)
  have kid: "down_regs ms h' P' m' c = down_regs ms h P' m' c" if "c \<in> set ts" for c P' m'
  proof (rule T.IH [OF that])
    fix x assume "x \<in> set (nodes c)"
    then show "verbs (h' x) = verbs (h x) \<and> uri (h' x) = uri (h x)"
      using that T.prems(1) [of x] by auto
  next
    fix x assume "x \<in> set (concat (map nodes (kids c)))"
    then have "x \<in> set (nodes c)"
      by (cases c) auto
    then show "middlewares (h' x) = middlewares (h x)"
      using that T.prems(2) [of x] by auto
  qed
  have at: "uri (h' (addr_of c)) = uri (h (addr_of c)) \<and>
            middlewares (h' (addr_of c)) = middlewares (h (addr_of c))" if "c \<in> set ts" for c
    using that T.prems(1) [of "addr_of c"] T.prems(2) [of "addr_of c"] addr_of_in_nodes [of c]
    by auto
  have eq: "map (\<lambda>c. down_regs ms h' (P @ uri (h' (addr_of c))) (m @ middlewares (h' (addr_of c))) c) (rev ts) =
        map (\<lambda>c. down_regs ms h (P @ uri (h (addr_of c))) (m @ middlewares (h (addr_of c))) c) (rev ts)"
    by (rule map_cong) (simp_all add: kid at)
  have "verbs (h' a) = verbs (h a)"
    using T.prems(1) [of a] by simp
  then show ?case
    unfolding down_regs.simps eq by simp
qed

lemma node_regs_drained: "(\<And>v. v \<in> set ms \<Longrightarrow> ops v = []) \<Longrightarrow> node_regs ms ops P m = []"
  by (induction ms arbitrary: ops) auto

lemma path_to_child:
  assumes "path_to h a P" and "parentElement (h c) = Some a"
  shows "path_to h c (P @ uri (h c))"
proof -
  from assms(1) obtain as where "root_chain h None (as @ [a])" and "P = joined h (as @ [a])"
    by (auto simp: path_to_def)
  then have "root_chain h None ((as @ [a]) @ [c])" and "P @ uri (h c) = joined h ((as @ [a]) @ [c])"
    using assms(2) by (simp_all add: root_chain_append joined_def)
  then show ?thesis
    unfolding path_to_def by blast
qed

lemma subtree_children:
  assumes kids_run: "\<And>c h e0 rt P. c \<in> set ts \<Longrightarrow> closed h c \<Longrightarrow> distinct (nodes c) \<Longrightarrow>
      arrives h e0 (addr_of c) \<Longrightarrow> path_to h (addr_of c) P \<Longrightarrow>
      \<exists>h'. build_loop ms (Some e0) h rt =
             build_loop ms (Some (addr_of c)) h'
               (rt @ down_regs ms h P (middlewares (h (addr_of c))) c) \<and>
           post ms (set (nodes c)) h h'"
  shows "closed h (T a ts) \<Longrightarrow> distinct (nodes (T a ts)) \<Longrightarrow> arrives h e0 a \<Longrightarrow> path_to h a P \<Longrightarrow>
     \<exists>h'. build_loop ms (Some e0) h rt =
            build_loop ms (Some a) h' (rt @ down_regs ms h P (middlewares (h a)) (T a ts)) \<and>
          post ms (set (nodes (T a ts))) h h'"
  using kids_run
proof (induction ts arbitrary: h e0 rt rule: rev_induct)
  case Nil
  let ?h' = "h(a := (drained ms (h a))\<lparr>visited := True\<rparr>)"
  have "children (h a) = []"
    using Nil.prems(1) by simp
  then have "build_loop ms (Some e0) h rt =
      build_loop ms (Some a) ?h' (rt @ down_regs ms h P (middlewares (h a)) (T a []))"
    using loop_step_leaf [OF Nil.prems(3,4)] by simp
  moreover have "post ms (set (nodes (T a []))) h ?h'"
    using \<open>children (h a) = []\<close> by (simp add: post_def same_links_def drained_def)
  ultimately show ?case
    by blast
next
  case (snoc c ts)
  let ?ca = "addr_of c"
  let ?R0 = "node_regs ms (verbs (h a)) P (middlewares (h a))"
  let ?mc = "middlewares (h a) @ middlewares (h ?ca)"
  define h3 where "h3 = h(a := (drained ms (h a))\<lparr>children := map addr_of ts\<rparr>,
                          ?ca := (h ?ca)\<lparr>middlewares := ?mc\<rparr>)"
  from snoc.prems(1) have nv: "\<not> visited (h a)"
    and ch: "children (h a) = map addr_of ts @ [?ca]"
    and cl_c: "closed h c" and par_c: "parentElement (h ?ca) = Some a"
    and cl_ts: "\<And>t. t \<in> set ts \<Longrightarrow> parentElement (h (addr_of t)) = Some a \<and> closed h t"
    by auto
  from snoc.prems(2) have d_c: "distinct (nodes c)" and a_c: "a \<notin> set (nodes c)"
    and d_ts: "distinct (nodes (T a ts))"
    and disj: "set (nodes c) \<inter> set (concat (map nodes ts)) = {}"
    and a_ts: "a \<notin> set (concat (map nodes ts))"
    by auto
  have ca_in: "?ca \<in> set (nodes c)"
    by (rule addr_of_in_nodes)
  then have ca_a: "?ca \<noteq> a"
    using a_c by auto
  have ca_ts: "?ca \<notin> set (concat (map nodes ts))"
    using ca_in disj by auto
  have h3_out: "h3 x = h x" if "x \<noteq> a" "x \<noteq> ?ca" for x
    using that by (simp add: h3_def)
  have h3_a: "h3 a = (drained ms (h a))\<lparr>children := map addr_of ts\<rparr>"
    using ca_a by (simp add: h3_def)
  have h3_ca: "h3 ?ca = (h ?ca)\<lparr>middlewares := ?mc\<rparr>"
    by (simp add: h3_def)
  have links3: "same_links h h3"
    by (simp add: same_links_def h3_def drained_def)
  have step1: "build_loop ms (Some e0) h rt = build_loop ms (Some ?ca) h3 (rt @ ?R0)"
    unfolding h3_def by (rule loop_step_child [OF snoc.prems(3,4) ch ca_a])
  have cl3: "closed h3 c"
  proof -
    have "closed h3 c = closed h c"
    proof (rule closed_cong)
      fix x assume "x \<in> set (nodes c)"
      then have "x \<noteq> a" using a_c by auto
      then show "visited (h3 x) = visited (h x) \<and> children (h3 x) = children (h x) \<and>
                 parentElement (h3 x) = parentElement (h x)"
        by (cases "x = ?ca") (simp_all add: h3_ca h3_out)
    qed
    with cl_c show ?thesis by simp
  qed
  have "\<not> visited (h ?ca)"
    using cl_c by (cases c) simp
  then have arr3: "arrives h3 ?ca ?ca"
    by (simp add: arrives_def h3_ca)
  have path3: "path_to h3 ?ca (P @ uri (h ?ca))"
    using path_to_child [OF snoc.prems(4) par_c] links3 by (simp add: path_to_links)
  from snoc.prems(5) [of c h3 ?ca "P @ uri (h ?ca)" "rt @ ?R0", OF _ cl3 d_c arr3 path3]
  obtain h4 where step2: "build_loop ms (Some ?ca) h3 (rt @ ?R0) =
        build_loop ms (Some ?ca) h4
          ((rt @ ?R0) @ down_regs ms h3 (P @ uri (h ?ca)) (middlewares (h3 ?ca)) c)"
    and post4: "post ms (set (nodes c)) h3 h4"
    by auto
  have links4: "same_links h h4"
    using links3 post4 by (auto simp: post_def same_links_def)
  have h4_out: "h4 x = h3 x" if "x \<notin> set (nodes c)" for x
    using that post4 by (simp add: post_def)
  have h4_a: "h4 a = h3 a"
    using a_c by (rule h4_out)
  have arr4: "arrives h4 ?ca a"
    using post4 ca_in links4 par_c by (auto simp: arrives_def post_def same_links_def)
  have path4: "path_to h4 a P"
    using snoc.prems(4) links4 by (simp add: path_to_links)
  have cl4: "closed h4 (T a ts)"
  proof -
    have "parentElement (h4 (addr_of t)) = Some a \<and> closed h4 t" if "t \<in> set ts" for t
    proof -
      have sub: "set (nodes t) \<subseteq> set (concat (map nodes ts))"
        using that by (rule nodes_kid_subset)
      have "closed h4 t = closed h t"
      proof (rule closed_cong)
        fix x assume "x \<in> set (nodes t)"
        then have "x \<notin> set (nodes c)" "x \<noteq> a" "x \<noteq> ?ca"
          using sub disj a_ts ca_ts by auto
        then show "visited (h4 x) = visited (h x) \<and> children (h4 x) = children (h x) \<and>
                   parentElement (h4 x) = parentElement (h x)"
          by (simp add: h4_out h3_out)
      qed
      then show ?thesis
        using cl_ts [OF that] links4 by (simp add: same_links_def)
    qed
    then show ?thesis
      using nv by (simp add: h4_a h3_a drained_def)
  qed
  have kids4: "\<exists>h'. build_loop ms (Some e0) h rt =
             build_loop ms (Some (addr_of c')) h'
               (rt @ down_regs ms h P (middlewares (h (addr_of c'))) c') \<and>
           post ms (set (nodes c')) h h'"
    if "c' \<in> set ts" "closed h c'" "distinct (nodes c')" "arrives h e0 (addr_of c')"
       "path_to h (addr_of c') P" for c' h e0 rt P
    using that snoc.prems(5) [of c' h e0 P rt] by simp
  from snoc.IH [OF cl4 d_ts arr4 path4 kids4,
      of "(rt @ ?R0) @ down_regs ms h3 (P @ uri (h ?ca)) (middlewares (h3 ?ca)) c"]
  obtain h5 where step3: "build_loop ms (Some ?ca) h4
          ((rt @ ?R0) @ down_regs ms h3 (P @ uri (h ?ca)) (middlewares (h3 ?ca)) c) =
        build_loop ms (Some a) h5
          (((rt @ ?R0) @ down_regs ms h3 (P @ uri (h ?ca)) (middlewares (h3 ?ca)) c) @
           down_regs ms h4 P (middlewares (h4 a)) (T a ts))"
    and post5: "post ms (set (nodes (T a ts))) h4 h5"
    by blast
  have regs_c: "down_regs ms h3 (P @ uri (h ?ca)) (middlewares (h3 ?ca)) c =
                down_regs ms h (P @ uri (h ?ca)) ?mc c"
  proof -
    have "down_regs ms h3 (P @ uri (h ?ca)) ?mc c = down_regs ms h (P @ uri (h ?ca)) ?mc c"
    proof (rule down_regs_cong)
      fix x assume "x \<in> set (nodes c)"
      then have "x \<noteq> a" using a_c by auto
      then show "verbs (h3 x) = verbs (h x) \<and> uri (h3 x) = uri (h x)"
        by (cases "x = ?ca") (simp_all add: h3_ca h3_out)
    next
      fix x assume x: "x \<in> set (concat (map nodes (kids c)))"
      have "nodes c = ?ca # concat (map nodes (kids c))"
        by (cases c) simp
      with d_c x have "x \<noteq> ?ca" "x \<in> set (nodes c)"
        by auto
      moreover from this have "x \<noteq> a"
        using a_c by auto
      ultimately show "middlewares (h3 x) = middlewares (h x)"
        by (simp add: h3_out)
    qed
    then show ?thesis
      by (simp add: h3_ca)
  qed
  have regs_ts: "down_regs ms h4 P (middlewares (h4 a)) (T a ts) =
      concat (map (\<lambda>t. down_regs ms h (P @ uri (h (addr_of t)))
                          (middlewares (h a) @ middlewares (h (addr_of t))) t) (rev ts))"
  proof -
    have nr: "node_regs ms (verbs (h4 a)) P (middlewares (h4 a)) = []"
      by (rule node_regs_drained) (simp add: h4_a h3_a drained_def)
    have mp: "map (\<lambda>t. down_regs ms h4 (P @ uri (h4 (addr_of t)))
                          (middlewares (h4 a) @ middlewares (h4 (addr_of t))) t) (rev ts) =
        map (\<lambda>t. down_regs ms h (P @ uri (h (addr_of t)))
                          (middlewares (h a) @ middlewares (h (addr_of t))) t) (rev ts)"
    proof (rule map_cong [OF refl])
      fix t assume "t \<in> set (rev ts)"
      then have t: "t \<in> set ts" by simp
      have sub: "set (nodes t) \<subseteq> set (concat (map nodes ts))"
        using t by (rule nodes_kid_subset)
      have same: "h4 x = h x" if "x \<in> set (nodes t)" for x
      proof -
        from that have "x \<notin> set (nodes c)" "x \<noteq> a" "x \<noteq> ?ca"
          using sub disj a_ts ca_ts by auto
        then show ?thesis by (simp add: h4_out h3_out)
      qed
      have "down_regs ms h4 P' m' t = down_regs ms h P' m' t" for P' m'
      proof (rule down_regs_cong)
        fix x assume "x \<in> set (nodes t)"
        then show "verbs (h4 x) = verbs (h x) \<and> uri (h4 x) = uri (h x)"
          by (simp add: same)
      next
        fix x assume "x \<in> set (concat (map nodes (kids t)))"
        then have "x \<in> set (nodes t)" by (cases t) auto
        then show "middlewares (h4 x) = middlewares (h x)"
          by (simp add: same)
      qed
      moreover have "h4 (addr_of t) = h (addr_of t)"
        using addr_of_in_nodes [of t] by (rule same)
      moreover have "middlewares (h4 a) = middlewares (h a)"
        by (simp add: h4_a h3_a drained_def)
      ultimately show "down_regs ms h4 (P @ uri (h4 (addr_of t)))
                          (middlewares (h4 a) @ middlewares (h4 (addr_of t))) t =
                       down_regs ms h (P @ uri (h (addr_of t)))
                          (middlewares (h a) @ middlewares (h (addr_of t))) t"
        by simp
    qed
    show ?thesis
      unfolding down_regs.simps nr mp by simp
  qed
  have run: "build_loop ms (Some e0) h rt =
      build_loop ms (Some a) h5 (rt @ down_regs ms h P (middlewares (h a)) (T a (ts @ [c])))"
    using step1 [unfolded step2, unfolded step3, unfolded regs_c regs_ts] by simp
  have post: "post ms (set (nodes (T a (ts @ [c])))) h h5"
    unfolding post_def
  proof (intro conjI allI ballI impI)
    show "same_links h h5"
      using links4 post5 by (auto simp: post_def same_links_def)
  next
    fix x assume "x \<notin> set (nodes (T a (ts @ [c])))"
    then have out: "x \<noteq> a" "x \<notin> set (nodes c)" "x \<notin> set (nodes (T a ts))"
      by auto
    then have "x \<noteq> ?ca"
      using ca_in by auto
    moreover have "h5 x = h4 x"
      using out(3) post5 unfolding post_def by blast
    ultimately show "h5 x = h x"
      using out by (simp add: h4_out h3_out)
  next
    fix x assume x: "x \<in> set (nodes (T a (ts @ [c])))"
    have "visited (h5 x) \<and> children (h5 x) = [] \<and> (\<forall>v\<in>set ms. verbs (h5 x) v = [])"
    proof (cases "x \<in> set (nodes (T a ts))")
      case True
      then show ?thesis using post5 unfolding post_def by blast
    next
      case False
      then have "x \<in> set (nodes c)" using x by auto
      moreover have "h5 x = h4 x" using False post5 unfolding post_def by blast
      ultimately show ?thesis using post4 unfolding post_def by simp
    qed
    then show "visited (h5 x)" "children (h5 x) = []" "\<And>v. v \<in> set ms \<Longrightarrow> verbs (h5 x) v = []"
      by auto
  qed
  from run post show ?case
    by blast
qed

lemma subtree_run:
  "closed h t \<Longrightarrow> distinct (nodes t) \<Longrightarrow> arrives h e0 (addr_of t) \<Longrightarrow> path_to h (addr_of t) P \<Longrightarrow>
   \<exists>h'. build_loop ms (Some e0) h rt =
          build_loop ms (Some (addr_of t)) h'
            (rt @ down_regs ms h P (middlewares (h (addr_of t))) t) \<and>
        post ms (set (nodes t)) h h'"
proof (induction t arbitrary: h e0 rt P)
  case (T a ts)
  show ?case
    unfolding addr_of.simps
    by (rule subtree_children [OF T.IH T.prems [unfolded addr_of.simps]])
qed

lemma all_nodes_simps [simp]:
  "all_nodes [] = []"
  "all_nodes ((a, ts) # fs) = a # concat (map nodes ts) @ all_nodes fs"
  by (simp_all add: all_nodes_def)

lemma fst_in_all_nodes: "set (map fst fs) \<subseteq> set (all_nodes fs)"
  by (induction fs) auto

lemma frames_chain: "frames_ok h (Some a) fs \<Longrightarrow> root_chain h None (rev (map fst fs) @ [a])"
proof (induction fs arbitrary: a)
  case Nil
  then show ?case by simp
next
  case (Cons f fs)
  obtain p ps where f: "f = (p, ps)" by (cases f)
  from Cons.prems have "parentElement (h a) = Some p" and "frames_ok h (Some p) fs"
    by (simp_all add: f)
  with Cons.IH [of p] show ?case
    by (simp add: f root_chain_append)
qed

lemma frames_path: "frames_ok h (Some a) fs \<Longrightarrow> path_to h a (joined h (rev (map fst fs) @ [a]))"
  unfolding path_to_def using frames_chain by blast

lemma frames_ok_cong:
  assumes "\<And>x. x \<in> set (all_nodes fs) \<Longrightarrow>
        visited (h' x) = visited (h x) \<and> children (h' x) = children (h x) \<and>
        parentElement (h' x) = parentElement (h x)"
    and "\<And>b. below = Some b \<Longrightarrow> parentElement (h' b) = parentElement (h b)"
  shows "frames_ok h' below fs = frames_ok h below fs"
  using assms
proof (induction fs arbitrary: below)
  case Nil
  then show ?case by (cases below) simp_all
next
  case (Cons f fs)
  obtain a ts where f: "f = (a, ts)" by (cases f)
  have a: "visited (h' a) = visited (h a)" "children (h' a) = children (h a)"
    "parentElement (h' a) = parentElement (h a)"
    using Cons.prems(1) [of a] by (simp_all add: f)
  have kid: "parentElement (h' (addr_of t)) = parentElement (h (addr_of t)) \<and>
             closed h' t = closed h t" if "t \<in> set ts" for t
  proof -
    have sub: "set (nodes t) \<subseteq> set (all_nodes (f # fs))"
      using that by (auto simp: f)
    have "closed h' t = closed h t"
      using sub Cons.prems(1) by (intro closed_cong) blast
    moreover have "parentElement (h' (addr_of t)) = parentElement (h (addr_of t))"
      using sub addr_of_in_nodes [of t] Cons.prems(1) by blast
    ultimately show ?thesis by simp
  qed
  have rest: "frames_ok h' (Some a) fs = frames_ok h (Some a) fs"
    using Cons.prems(1) a by (intro Cons.IH) (auto simp: f)
  show ?case
    using a kid rest Cons.prems(2) by (cases below) (auto simp: f)
qed

lemma up_regs_cong:
  assumes "\<And>x. x \<in> set (all_nodes fs) \<Longrightarrow>
        verbs (h' x) = verbs (h x) \<and> uri (h' x) = uri (h x) \<and>
        middlewares (h' x) = middlewares (h x)"
  shows "up_regs ms h' fs = up_regs ms h fs"
  using assms
proof (induction fs)
  case Nil
  then show ?case by simp
next
  case (Cons f fs)
  obtain a ts where f: "f = (a, ts)" by (cases f)
  have rest: "up_regs ms h' fs = up_regs ms h fs"
    using Cons.prems by (intro Cons.IH) (auto simp: f)
  have "joined h' (rev (map fst fs) @ [a]) = joined h (rev (map fst fs) @ [a])"
    using Cons.prems fst_in_all_nodes [of fs] by (intro joined_cong) (auto simp: f)
  moreover have "down_regs ms h' P m (T a ts) = down_regs ms h P m (T a ts)" for P m
    using Cons.prems by (intro down_regs_cong) (auto simp: f)
  moreover have "middlewares (h' a) = middlewares (h a)"
    using Cons.prems [of a] by (simp add: f)
  ultimately show ?case
    unfolding f up_regs.simps rest by simp
qed

lemma post_finished: "post ms X h h' \<Longrightarrow> x \<in> X \<Longrightarrow> finished ms h' x"
  unfolding post_def finished_def by blast

lemma keeps_finished: "keeps h h' x \<Longrightarrow> finished ms h x \<Longrightarrow> finished ms h' x"
  by (simp add: keeps_def finished_def)

lemma frames_run:
  "frames_ok h (Some b) fs \<Longrightarrow> visited (h b) \<Longrightarrow> b \<notin> set (all_nodes fs) \<Longrightarrow>
   distinct (all_nodes fs) \<Longrightarrow>
   \<exists>h'. build_loop ms (Some b) h rt = Some (h', rt @ up_regs ms h fs) \<and>
        same_links h h' \<and>
        (\<forall>x. x \<notin> set (all_nodes fs) \<longrightarrow> keeps h h' x) \<and>
        (\<forall>x\<in>set (all_nodes fs). finished ms h' x)"
proof (induction fs arbitrary: h b rt)
  case Nil
  then have "build_loop ms (Some b) h rt = Some (h, rt)"
    by (simp add: loop_exit)
  then show ?case
    by (auto simp: same_links_def keeps_def)
next
  case (Cons f fs)
  obtain a ts where f: "f = (a, ts)" by (cases f)
  let ?P = "joined h (rev (map fst fs) @ [a])"
  let ?R0 = "node_regs ms (verbs (h a)) ?P (middlewares (h a))"
  define h3 where "h3 = h(a := (drained ms (h a))\<lparr>children := map addr_of ts\<rparr>,
                          b := (h b)\<lparr>middlewares := middlewares (h a) @ middlewares (h b)\<rparr>)"
  from Cons.prems(1) have nv: "\<not> visited (h a)" and par_b: "parentElement (h b) = Some a"
    and ch: "children (h a) = map addr_of ts @ [b]"
    and cl_ts: "\<And>t. t \<in> set ts \<Longrightarrow> parentElement (h (addr_of t)) = Some a \<and> closed h t"
    and ok_fs: "frames_ok h (Some a) fs"
    by (auto simp: f)
  from Cons.prems(3) have b_a: "b \<noteq> a" and b_ts: "b \<notin> set (concat (map nodes ts))"
    and b_fs: "b \<notin> set (all_nodes fs)"
    by (auto simp: f)
  from Cons.prems(4) have d_a: "distinct (nodes (T a ts))" and a_fs: "a \<notin> set (all_nodes fs)"
    and ts_fs: "set (concat (map nodes ts)) \<inter> set (all_nodes fs) = {}"
    and a_ts: "a \<notin> set (concat (map nodes ts))"
    and d_fs: "distinct (all_nodes fs)"
    by (auto simp: f)
  have h3_out: "h3 x = h x" if "x \<noteq> a" "x \<noteq> b" for x
    using that by (simp add: h3_def)
  have h3_a: "h3 a = (drained ms (h a))\<lparr>children := map addr_of ts\<rparr>"
    using b_a by (simp add: h3_def)
  have h3_b: "h3 b = (h b)\<lparr>middlewares := middlewares (h a) @ middlewares (h b)\<rparr>"
    by (simp add: h3_def)
  have links3: "same_links h h3"
    by (simp add: same_links_def h3_def drained_def)
  have path: "path_to h a ?P"
    using ok_fs by (rule frames_path)
  have arr: "arrives h b a"
    using Cons.prems(2) par_b by (simp add: arrives_def)
  have step1: "build_loop ms (Some b) h rt = build_loop ms (Some b) h3 (rt @ ?R0)"
    unfolding h3_def by (rule loop_step_child [OF arr path ch b_a])
  have arr3: "arrives h3 b a"
    using Cons.prems(2) par_b by (simp add: arrives_def h3_b)
  have path3: "path_to h3 a ?P"
    using path links3 by (simp add: path_to_links)
  have same_ts: "h3 x = h x" if "x \<in> set (concat (map nodes ts))" for x
    using that a_ts b_ts by (intro h3_out) auto
  have same_t: "h3 x = h x" if "t \<in> set ts" "x \<in> set (nodes t)" for t x
    using nodes_kid_subset [OF that(1)] that(2) by (intro same_ts) blast
  have cl3: "closed h3 (T a ts)"
  proof -
    have "parentElement (h3 (addr_of t)) = Some a \<and> closed h3 t" if "t \<in> set ts" for t
    proof -
      have "closed h3 t = closed h t"
        by (rule closed_cong) (simp add: same_t [OF that])
      then show ?thesis
        using cl_ts [OF that] links3 by (simp add: same_links_def)
    qed
    then show ?thesis
      using nv by (simp add: h3_a drained_def)
  qed
  from subtree_run [OF cl3 d_a, of b ?P ms "rt @ ?R0"] arr3 path3
  obtain h4 where step2: "build_loop ms (Some b) h3 (rt @ ?R0) =
        build_loop ms (Some a) h4 ((rt @ ?R0) @ down_regs ms h3 ?P (middlewares (h3 a)) (T a ts))"
    and post4: "post ms (set (nodes (T a ts))) h3 h4"
    by auto
  have regs: "?R0 @ down_regs ms h3 ?P (middlewares (h3 a)) (T a ts) =
              down_regs ms h ?P (middlewares (h a)) (T a ts)"
  proof -
    have nr: "node_regs ms (verbs (h3 a)) ?P (middlewares (h3 a)) = []"
      by (rule node_regs_drained) (simp add: h3_a drained_def)
    have mp: "map (\<lambda>t. down_regs ms h3 (?P @ uri (h3 (addr_of t)))
                          (middlewares (h3 a) @ middlewares (h3 (addr_of t))) t) (rev ts) =
        map (\<lambda>t. down_regs ms h (?P @ uri (h (addr_of t)))
                          (middlewares (h a) @ middlewares (h (addr_of t))) t) (rev ts)"
    proof (rule map_cong [OF refl])
      fix t assume "t \<in> set (rev ts)"
      then have t: "t \<in> set ts" by simp
      have "down_regs ms h3 P' m' t = down_regs ms h P' m' t" for P' m'
      proof (rule down_regs_cong)
        fix x assume "x \<in> set (nodes t)"
        then show "verbs (h3 x) = verbs (h x) \<and> uri (h3 x) = uri (h x)"
          by (simp add: same_t [OF t])
      next
        fix x assume "x \<in> set (concat (map nodes (kids t)))"
        then have "x \<in> set (nodes t)" by (cases t) auto
        then show "middlewares (h3 x) = middlewares (h x)"
          by (simp add: same_t [OF t])
      qed
      moreover have "h3 (addr_of t) = h (addr_of t)"
        using addr_of_in_nodes [of t] by (rule same_t [OF t])
      moreover have "middlewares (h3 a) = middlewares (h a)"
        by (simp add: h3_a drained_def)
      ultimately show "down_regs ms h3 (?P @ uri (h3 (addr_of t)))
                          (middlewares (h3 a) @ middlewares (h3 (addr_of t))) t =
                       down_regs ms h (?P @ uri (h (addr_of t)))
                          (middlewares (h a) @ middlewares (h (addr_of t))) t"
        by simp
    qed
    show ?thesis
      unfolding down_regs.simps nr mp by simp
  qed
  have h4_out: "h4 x = h3 x" if "x \<notin> set (nodes (T a ts))" for x
    using that post4 unfolding post_def by blast
  have links4: "same_links h h4"
    using links3 post4 by (auto simp: post_def same_links_def)
  have vis4: "visited (h4 a)"
    using post4 unfolding post_def by simp
  have same_fs: "h4 x = h x" if "x \<in> set (all_nodes fs)" for x
  proof -
    from that have "x \<notin> set (nodes (T a ts))" "x \<noteq> a" "x \<noteq> b"
      using a_fs ts_fs b_fs by auto
    then show ?thesis
      by (simp add: h4_out h3_out)
  qed
  have ok4: "frames_ok h4 (Some a) fs"
  proof -
    have "frames_ok h4 (Some a) fs = frames_ok h (Some a) fs"
      using links4 by (intro frames_ok_cong) (simp_all add: same_fs same_links_def)
    with ok_fs show ?thesis by simp
  qed
  from Cons.IH [OF ok4 vis4 a_fs d_fs,
      of "(rt @ ?R0) @ down_regs ms h3 ?P (middlewares (h3 a)) (T a ts)"]
  obtain h5 where step3: "build_loop ms (Some a) h4
          ((rt @ ?R0) @ down_regs ms h3 ?P (middlewares (h3 a)) (T a ts)) =
        Some (h5, ((rt @ ?R0) @ down_regs ms h3 ?P (middlewares (h3 a)) (T a ts)) @
                  up_regs ms h4 fs)"
    and links5: "same_links h4 h5"
    and out5: "\<And>x. x \<notin> set (all_nodes fs) \<Longrightarrow> keeps h4 h5 x"
    and fin5: "\<And>x. x \<in> set (all_nodes fs) \<Longrightarrow> finished ms h5 x"
    by blast
  have up: "up_regs ms h4 fs = up_regs ms h fs"
    by (rule up_regs_cong) (simp add: same_fs)
  have run: "build_loop ms (Some b) h rt = Some (h5, rt @ up_regs ms h (f # fs))"
    using step1 [unfolded step2, unfolded step3, unfolded up] regs by (simp add: f)
  have links: "same_links h h5"
    using links4 links5 by (auto simp: same_links_def)
  have out: "keeps h h5 x" if "x \<notin> set (all_nodes (f # fs))" for x
  proof -
    from that have x: "x \<noteq> a" "x \<notin> set (all_nodes fs)" "x \<notin> set (nodes (T a ts))"
      by (auto simp: f)
    have "keeps h4 h5 x"
      using x(2) by (rule out5)
    moreover have "h4 x = h3 x"
      using x(3) by (rule h4_out)
    moreover have "keeps h h3 x"
      using x(1) by (cases "x = b") (simp_all add: keeps_def h3_b h3_out)
    ultimately show ?thesis
      by (simp add: keeps_def)
  qed
  have fin: "finished ms h5 x" if "x \<in> set (all_nodes (f # fs))" for x
  proof (cases "x \<in> set (all_nodes fs)")
    case True
    then show ?thesis by (rule fin5)
  next
    case False
    then have "x \<in> set (nodes (T a ts))"
      using that by (auto simp: f)
    then have "finished ms h4 x"
      using post4 by (intro post_finished)
    with out5 [OF False] show ?thesis
      by (rule keeps_finished)
  qed
  from run links out fin show ?case
    by blast
qed

lemma cursor_run:
  assumes ok: "frames_ok h None ((c, ts) # fs)" and dist: "distinct (all_nodes ((c, ts) # fs))"
  shows "\<exists>h'. build_loop ms (Some c) h rt = Some (h', rt @ up_regs ms h ((c, ts) # fs)) \<and>
        same_links h h' \<and>
        (\<forall>x. x \<notin> set (all_nodes ((c, ts) # fs)) \<longrightarrow> keeps h h' x) \<and>
        (\<forall>x\<in>set (all_nodes ((c, ts) # fs)). finished ms h' x)"
proof -
  let ?P = "joined h (rev (map fst fs) @ [c])"
  from ok have cl: "closed h (T c ts)" and ok_fs: "frames_ok h (Some c) fs"
    by auto
  from dist have d_c: "distinct (nodes (T c ts))" and d_fs: "distinct (all_nodes fs)"
    and c_fs: "c \<notin> set (all_nodes fs)"
    and disj: "set (nodes (T c ts)) \<inter> set (all_nodes fs) = {}"
    by auto
  have arr: "arrives h c (addr_of (T c ts))"
    using cl by (simp add: arrives_def)
  have path: "path_to h (addr_of (T c ts)) ?P"
    using frames_path [OF ok_fs] by simp
  from subtree_run [OF cl d_c arr path, of ms rt]
  obtain h1 where step1: "build_loop ms (Some c) h rt =
        build_loop ms (Some c) h1 (rt @ down_regs ms h ?P (middlewares (h c)) (T c ts))"
    and post1: "post ms (set (nodes (T c ts))) h h1"
    by auto
  have links1: "same_links h h1"
    using post1 by (simp add: post_def)
  have same_fs: "h1 x = h x" if "x \<in> set (all_nodes fs)" for x
  proof -
    from that disj have "x \<notin> set (nodes (T c ts))" by blast
    with post1 show ?thesis unfolding post_def by blast
  qed
  have vis1: "visited (h1 c)"
    using post_finished [OF post1, of c] by (simp add: finished_def)
  have ok1: "frames_ok h1 (Some c) fs"
  proof -
    have "frames_ok h1 (Some c) fs = frames_ok h (Some c) fs"
      using links1 by (intro frames_ok_cong) (simp_all add: same_fs same_links_def)
    with ok_fs show ?thesis by simp
  qed
  from frames_run [OF ok1 vis1 c_fs d_fs,
      of ms "rt @ down_regs ms h ?P (middlewares (h c)) (T c ts)"]
  obtain h2 where step2: "build_loop ms (Some c) h1
          (rt @ down_regs ms h ?P (middlewares (h c)) (T c ts)) =
        Some (h2, (rt @ down_regs ms h ?P (middlewares (h c)) (T c ts)) @ up_regs ms h1 fs)"
    and links2: "same_links h1 h2"
    and out2: "\<And>x. x \<notin> set (all_nodes fs) \<Longrightarrow> keeps h1 h2 x"
    and fin2: "\<And>x. x \<in> set (all_nodes fs) \<Longrightarrow> finished ms h2 x"
    by blast
  have up: "up_regs ms h1 fs = up_regs ms h fs"
    by (rule up_regs_cong) (simp add: same_fs)
  have run: "build_loop ms (Some c) h rt = Some (h2, rt @ up_regs ms h ((c, ts) # fs))"
    using step1 [unfolded step2, unfolded up] by simp
  have links: "same_links h h2"
    using links1 links2 by (auto simp: same_links_def)
  have out: "keeps h h2 x" if "x \<notin> set (all_nodes ((c, ts) # fs))" for x
  proof -
    from that have x: "x \<notin> set (all_nodes fs)" "x \<notin> set (nodes (T c ts))"
      by auto
    have "h1 x = h x"
      using x(2) post1 unfolding post_def by blast
    with out2 [OF x(1)] show ?thesis
      by (simp add: keeps_def)
  qed
  have fin: "finished ms h2 x" if "x \<in> set (all_nodes ((c, ts) # fs))" for x
  proof (cases "x \<in> set (all_nodes fs)")
    case True
    then show ?thesis by (rule fin2)
  next
    case False
    then have "x \<in> set (nodes (T c ts))"
      using that by auto
    then have "finished ms h1 x"
      using post1 by (intro post_finished)
    with out2 [OF False] show ?thesis
      by (rule keeps_finished)
  qed
  from run links out fin show ?thesis
    by blast
qed

lemma rep_init: "rep (ApiBuilder options) [(0, [])]"
  by (auto simp: rep_def ApiBuilder_def createPathElement_def)

lemma rep_enter:
  assumes "rep s fs"
  shows "rep (enter u mws s) ((fresh s, []) # fs)"
proof -
  obtain c ts rest where fs: "fs = (c, ts) # rest"
    using assms by (cases fs) (auto simp: rep_def)
  let ?n = "fresh s"
  let ?h = "heap s"
  let ?h' = "heap (enter u mws s)"
  from assms have inst: "this_instance s" and cur: "currentElement s = Some c"
    and ok: "frames_ok ?h None ((c, ts) # rest)" and dist: "distinct (all_nodes fs)"
    and all: "set (all_nodes fs) = {..<?n}"
    by (simp_all add: rep_def fs)
  have c_n: "c \<noteq> ?n" and n_out: "?n \<notin> set (all_nodes fs)"
    using all by (auto simp: fs)
  have h'_n: "?h' ?n = createPathElement (Some c) u mws"
    using cur c_n by (simp add: enter_def Let_def)
  have h'_c: "?h' c = (?h c)\<lparr>children := children (?h c) @ [?n]\<rparr>"
    using cur c_n by (simp add: enter_def Let_def)
  have h'_out: "?h' x = ?h x" if "x \<noteq> c" "x \<noteq> ?n" for x
    using cur that by (simp add: enter_def Let_def)
  from ok have nv: "\<not> visited (?h c)" and ch: "children (?h c) = map addr_of ts"
    and cl_ts: "\<And>t. t \<in> set ts \<Longrightarrow> parentElement (?h (addr_of t)) = Some c \<and> closed ?h t"
    and ok_rest: "frames_ok ?h (Some c) rest"
    by auto
  have same_t: "?h' x = ?h x" if "t \<in> set ts" "x \<in> set (nodes t)" for t x
  proof -
    have "x \<in> set (concat (map nodes ts))"
      using nodes_kid_subset [OF that(1)] that(2) by blast
    then have "x \<noteq> c" "x \<noteq> ?n"
      using dist n_out by (auto simp: fs)
    then show ?thesis by (rule h'_out)
  qed
  have same_rest: "?h' x = ?h x" if "x \<in> set (all_nodes rest)" for x
  proof -
    from that have "x \<noteq> c" "x \<noteq> ?n"
      using dist n_out by (auto simp: fs)
    then show ?thesis by (rule h'_out)
  qed
  have kid: "parentElement (?h' (addr_of t)) = Some c \<and> closed ?h' t" if "t \<in> set ts" for t
  proof -
    have "closed ?h' t = closed ?h t"
      by (rule closed_cong) (simp add: same_t [OF that])
    moreover have "?h' (addr_of t) = ?h (addr_of t)"
      using addr_of_in_nodes [of t] by (rule same_t [OF that])
    ultimately show ?thesis
      using cl_ts [OF that] by simp
  qed
  have rest': "frames_ok ?h' (Some c) rest"
  proof -
    have "frames_ok ?h' (Some c) rest = frames_ok ?h (Some c) rest"
      by (rule frames_ok_cong) (simp_all add: same_rest h'_c)
    with ok_rest show ?thesis by simp
  qed
  have "frames_ok ?h' None ((?n, []) # (c, ts) # rest)"
    using nv ch kid rest' by (simp add: h'_n h'_c createPathElement_def)
  moreover have "currentElement (enter u mws s) = Some ?n" "fresh (enter u mws s) = Suc ?n"
    "this_instance (enter u mws s) = this_instance s"
    by (simp_all add: enter_def Let_def)
  moreover have "distinct (all_nodes ((?n, []) # fs))"
    using dist n_out by simp
  moreover have "set (all_nodes ((?n, []) # fs)) = {..<Suc ?n}"
    using all by (auto simp: lessThan_Suc)
  ultimately show ?thesis
    using inst by (simp add: rep_def fs)
qed

lemma rep_end_group:
  assumes "rep s fs"
  shows "\<exists>fs'. rep (end_group s) fs'"
proof -
  obtain c ts rest where fs: "fs = (c, ts) # rest"
    using assms by (cases fs) (auto simp: rep_def)
  let ?h = "heap s"
  from assms have inst: "this_instance s" and cur: "currentElement s = Some c"
    and ok: "frames_ok ?h None ((c, ts) # rest)" and dist: "distinct (all_nodes fs)"
    and all: "set (all_nodes fs) = {..<fresh s}"
    by (simp_all add: rep_def fs)
  show ?thesis
  proof (cases rest)
    case Nil
    then have "parentElement (?h c) = None"
      using ok by simp
    then have "end_group s = s"
      using cur by (simp add: end_group_def)
    with assms show ?thesis by auto
  next
    case (Cons f rest')
    obtain p ps where f: "f = (p, ps)" by (cases f)
    from ok have par: "parentElement (?h c) = Some p"
      and cl: "closed ?h (T c ts)"
      and ok_p: "\<not> visited (?h p)" "children (?h p) = map addr_of ps @ [c]"
        "\<And>t. t \<in> set ps \<Longrightarrow> parentElement (?h (addr_of t)) = Some p \<and> closed ?h t"
        "frames_ok ?h (Some p) rest'"
      by (auto simp: Cons f)
    have eg: "end_group s = s\<lparr>currentElement := Some p\<rparr>"
      using cur par by (simp add: end_group_def)
    let ?fs' = "(p, ps @ [T c ts]) # rest'"
    have "frames_ok ?h None ?fs'"
      using par cl ok_p by auto
    moreover have "distinct (all_nodes ?fs')"
      using dist by (auto simp: fs Cons f)
    moreover have "set (all_nodes ?fs') = {..<fresh s}"
      using all by (auto simp: fs Cons f)
    ultimately have "rep (end_group s) ?fs'"
      using inst by (simp add: rep_def eg)
    then show ?thesis ..
  qed
qed

lemma rep_verb_method:
  assumes "rep s fs" and "verb_method m u mws s = Inr s'"
  shows "rep s' fs"
proof -
  obtain c ts rest where fs: "fs = (c, ts) # rest"
    using assms(1) by (cases fs) (auto simp: rep_def)
  from assms(1) have cur: "currentElement s = Some c" and inst: "this_instance s"
    by (simp_all add: rep_def fs)
  from assms(2) obtain x where s': "s' = s\<lparr>heap := (heap s)(c := (heap s c)\<lparr>verbs := x\<rparr>)\<rparr>"
    using cur inst by (auto simp: verb_method_def Let_def split: arg.splits)
  have "frames_ok (heap s') None fs = frames_ok (heap s) None fs"
    by (rule frames_ok_cong) (simp_all add: s')
  then show ?thesis
    using assms(1) by (simp add: rep_def s')
qed

lemma exec_run_rep:
  shows "exec ms c s = Inr s' \<Longrightarrow> \<exists>fs. rep s fs \<Longrightarrow> \<exists>fs'. rep s' fs'"
    and "run ms cs s = Inr s' \<Longrightarrow> \<exists>fs. rep s fs \<Longrightarrow> \<exists>fs'. rep s' fs'"
proof (induction ms c s and ms cs s arbitrary: s' and s' rule: exec_run.induct)
  case (1 ms s)
  then show ?case by simp
next
  case (2 ms c cs s)
  then show ?case by (auto split: sum.splits)
next
  case (3 ms s)
  then show ?case using rep_end_group by auto
next
  case (4 ms name u mws s)
  then show ?case by (auto split: option.splits intro: rep_verb_method)
next
  case (5 ms u mws s)
  obtain u' mws1 where pa: "path_args u mws = (u', mws1)" by (cases "path_args u mws")
  from 5(3) obtain fs where fs: "rep s fs" ..
  have ent: "\<exists>fs'. rep (enter u' (butlast mws1) s) fs'"
    using rep_enter [OF fs] by blast
  show ?case
  proof (cases "mws1 = []")
    case True
    with 5(2) pa ent show ?thesis by auto
  next
    case False
    with 5(2) pa obtain s2 where r: "run ms (fn_body (last mws1)) (enter u' (butlast mws1) s) = Inr s2"
      and s': "s' = end_group s2"
      by (auto split: sum.splits if_splits)
    from 5(1) [OF pa [symmetric] refl refl False r ent] obtain fs2 where "rep s2 fs2" ..
    then show ?thesis
      unfolding s' by (rule rep_end_group)
  qed
qed

lemma reachable_rep: "run ms cs (ApiBuilder options) = Inr s \<Longrightarrow> \<exists>fs. rep s fs"
  using exec_run_rep(2) rep_init by blast

lemma build_rep:
  assumes "rep s fs"
  shows "\<exists>h'. build ms s =
           Some (given_router s @ up_regs ms (heap s) fs,
                 s\<lparr>heap := h',
                    router := (case router s of None \<Rightarrow> None
                               | Some r0 \<Rightarrow> Some (given_router s @ up_regs ms (heap s) fs))\<rparr>) \<and>
         same_links (heap s) h' \<and> (\<forall>x<fresh s. finished ms h' x)"
proof -
  obtain c ts rest where fs: "fs = (c, ts) # rest"
    using assms by (cases fs) (auto simp: rep_def)
  from assms have cur: "currentElement s = Some c"
    and ok: "frames_ok (heap s) None ((c, ts) # rest)"
    and dist: "distinct (all_nodes ((c, ts) # rest))"
    and all: "set (all_nodes fs) = {..<fresh s}"
    by (simp_all add: rep_def fs)
  from cursor_run [OF ok dist, of ms "given_router s"]
  obtain h' where run: "build_loop ms (Some c) (heap s) (given_router s) =
        Some (h', given_router s @ up_regs ms (heap s) fs)"
    and links: "same_links (heap s) h'"
    and fin: "\<And>x. x \<in> set (all_nodes fs) \<Longrightarrow> finished ms h' x"
    unfolding fs by blast
  have "build ms s =
           Some (given_router s @ up_regs ms (heap s) fs,
                 s\<lparr>heap := h',
                    router := (case router s of None \<Rightarrow> None
                               | Some r0 \<Rightarrow> Some (given_router s @ up_regs ms (heap s) fs))\<rparr>)"
    using run cur by (simp add: build_def Let_def given_router_def [symmetric])
  moreover have "\<forall>x<fresh s. finished ms h' x"
    using fin all by auto
  ultimately show ?thesis
    using links by blast
qed

lemma finished_drained: "finished ms h p \<Longrightarrow> (drained ms (h p))\<lparr>visited := True\<rparr> = h p"
proof -
  assume f: "finished ms h p"
  then have "(\<lambda>v. if v \<in> set ms then [] else verbs (h p) v) = verbs (h p)"
    by (auto simp: finished_def fun_eq_iff)
  then have "drained ms (h p) = h p"
    by (simp add: drained_def)
  moreover have "visited (h p)"
    using f by (simp add: finished_def)
  ultimately show ?thesis
    by simp
qed

lemma finished_exit:
  "root_chain h None (as @ [c]) \<Longrightarrow> (\<forall>x\<in>set (as @ [c]). finished ms h x) \<Longrightarrow>
   build_loop ms (Some c) h rt = Some (h, rt)"
proof (induction as arbitrary: c rule: rev_induct)
  case Nil
  then show ?case
    by (intro loop_exit) (simp_all add: finished_def)
next
  case (snoc p bs)
  from snoc.prems(1) have par: "parentElement (h c) = Some p" and ch: "root_chain h None (bs @ [p])"
    by (auto simp: root_chain_append)
  from snoc.prems(2) have fc: "finished ms h c" and fp: "finished ms h p"
    and rest: "\<forall>x\<in>set (bs @ [p]). finished ms h x"
    by auto
  have arr: "arrives h c p"
    using fc par by (simp add: arrives_def finished_def)
  have path: "path_to h p (joined h (bs @ [p]))"
    using ch unfolding path_to_def by blast
  have "children (h p) = []"
    using fp by (simp add: finished_def)
  from loop_step_leaf [OF arr path this, of ms rt]
  have "build_loop ms (Some c) h rt =
          build_loop ms (Some p) (h(p := h p))
            (rt @ node_regs ms (verbs (h p)) (joined h (bs @ [p])) (middlewares (h p)))"
    by (simp only: finished_drained [OF fp])
  moreover have "node_regs ms (verbs (h p)) (joined h (bs @ [p])) (middlewares (h p)) = []"
    using fp by (intro node_regs_drained) (simp add: finished_def)
  ultimately have "build_loop ms (Some c) h rt = build_loop ms (Some p) h rt"
    by simp
  with snoc.IH [OF ch rest] show ?case
    by simp
qed

lemma rep_cursor_chain:
  assumes "rep s fs"
  shows "\<exists>as c. currentElement s = Some c \<and> root_chain (heap s) None (as @ [c]) \<and>
           (\<forall>x\<in>set (as @ [c]). x < fresh s)"
proof -
  obtain c ts rest where fs: "fs = (c, ts) # rest"
    using assms by (cases fs) (auto simp: rep_def)
  from assms have cur: "currentElement s = Some c"
    and ok: "frames_ok (heap s) (Some c) rest"
    and all: "set (all_nodes fs) = {..<fresh s}"
    by (simp_all add: rep_def fs)
  have "root_chain (heap s) None (rev (map fst rest) @ [c])"
    using ok by (rule frames_chain)
  moreover have "\<forall>x\<in>set (rev (map fst rest) @ [c]). x < fresh s"
    using all fst_in_all_nodes [of rest] by (auto simp: fs)
  ultimately show ?thesis
    using cur by blast
qed

lemma run_router: "run ms cs s = Inr s' \<Longrightarrow> router s' = router s"
  using exec_run_extends(2) by (auto simp: extends_def)

section \<open>Lemmas on the order of registrations\<close>

lemma concat_map_concat:
  "concat (map f (concat xss)) = concat (map (\<lambda>xs. concat (map f xs)) xss)"
  by (induction xss) simp_all

lemma down_regs_blocks:
  "down_regs ms h P m t = concat (map (block_regs ms h) (pre_blocks h P m t))"
proof (induction t arbitrary: P m)
  case (T a ts)
  have eq: "map (\<lambda>c. down_regs ms h (P @ uri (h (addr_of c))) (m @ middlewares (h (addr_of c))) c) (rev ts) =
        map (\<lambda>c. concat (map (block_regs ms h)
               (pre_blocks h (P @ uri (h (addr_of c))) (m @ middlewares (h (addr_of c))) c))) (rev ts)"
    by (rule map_cong [OF refl]) (simp add: T.IH)
  have b: "block_regs ms h (a, P, m) = node_regs ms (verbs (h a)) P m"
    by (simp add: block_regs_def)
  show ?case
    unfolding down_regs.simps pre_blocks.simps eq
    by (simp add: b concat_map_concat comp_def)
qed

lemma up_regs_blocks: "up_regs ms h fs = concat (map (block_regs ms h) (up_blocks h fs))"
  by (induction fs) (auto simp: down_regs_blocks)

lemma closed_linked: "closed h t \<Longrightarrow> linked h t"
  by (induction t) auto

lemma pre_blocks_nodes: "map fst (pre_blocks h P m t) = a # as \<Longrightarrow> a = addr_of t"
  by (cases t) simp

lemma set_pre_blocks: "fst ` set (pre_blocks h P m t) = set (nodes t)"
proof (induction t arbitrary: P m)
  case (T a ts)
  have "fst ` set (pre_blocks h P' m' c) = set (nodes c)" if "c \<in> set ts" for c P' m'
    using that by (rule T.IH)
  then show ?case
    by (auto simp: image_UN)
qed

lemma pre_blocks_path:
  "linked h t \<Longrightarrow> path_to h (addr_of t) P \<Longrightarrow> (x, Q, n) \<in> set (pre_blocks h P m t) \<Longrightarrow>
   path_to h x Q"
proof (induction t arbitrary: P m)
  case (T a ts)
  show ?case
  proof (cases "(x, Q, n) = (a, P, m)")
    case True
    with T.prems(2) show ?thesis by simp
  next
    case False
    with T.prems(3) obtain c where c: "c \<in> set ts"
      and mem: "(x, Q, n) \<in> set (pre_blocks h (P @ uri (h (addr_of c)))
                                    (m @ middlewares (h (addr_of c))) c)"
      by auto
    from T.prems(1) c have par: "parentElement (h (addr_of c)) = Some a" and l: "linked h c"
      by auto
    have "path_to h (addr_of c) (P @ uri (h (addr_of c)))"
      using T.prems(2) par by (intro path_to_child) simp_all
    from T.IH [OF c l this mem] show ?thesis .
  qed
qed

lemma frames_linked: "frames_ok h below ((a, ts) # fs) \<Longrightarrow> linked h (T a ts)"
  by (auto intro: closed_linked)

lemma up_blocks_path:
  "frames_ok h below fs \<Longrightarrow> (x, Q, n) \<in> set (up_blocks h fs) \<Longrightarrow> path_to h x Q"
proof (induction fs arbitrary: below)
  case Nil
  then show ?case by simp
next
  case (Cons f fs)
  obtain a ts where f: "f = (a, ts)" by (cases f)
  from Cons.prems(1) have ok: "frames_ok h (Some a) fs" and l: "linked h (T a ts)"
    using frames_linked [of h below a ts fs] by (auto simp: f)
  from Cons.prems(2) consider
    "(x, Q, n) \<in> set (pre_blocks h (joined h (rev (map fst fs) @ [a])) (middlewares (h a)) (T a ts))"
    | "(x, Q, n) \<in> set (up_blocks h fs)"
    by (auto simp: f)
  then show ?case
  proof cases
    case 1
    have "path_to h (addr_of (T a ts)) (joined h (rev (map fst fs) @ [a]))"
      using frames_path [OF ok] by simp
    from pre_blocks_path [OF l this 1] show ?thesis .
  next
    case 2
    from Cons.IH [OF ok 2] show ?thesis .
  qed
qed

lemma set_up_blocks: "fst ` set (up_blocks h fs) = set (all_nodes fs)"
proof (induction fs)
  case Nil
  then show ?case by simp
next
  case (Cons f fs)
  obtain a ts where f: "f = (a, ts)" by (cases f)
  have "set (all_nodes (f # fs)) = set (nodes (T a ts)) \<union> set (all_nodes fs)"
    by (simp add: f)
  then show ?case
    by (simp add: f image_Un set_pre_blocks Cons.IH del: pre_blocks.simps nodes.simps)
qed

lemma node_regs_set:
  "set (node_regs ms ops P m) =
     {(v, P @ uri_text (op_uri oper), m @ op_middlewares oper) | v oper.
        v \<in> set ms \<and> oper \<in> set (ops v)}"
proof (induction ms arbitrary: ops)
  case Nil
  then show ?case by simp
next
  case (Cons w ms)
  show ?case
    unfolding node_regs.simps set_append Cons.IH
    by (auto split: if_splits)
qed

lemma build_blocks:
  assumes "run ms cs (ApiBuilder options) = Inr s"
  shows "\<exists>fs s'. rep s fs \<and>
           build ms s = Some ((case options of None \<Rightarrow> [] | Some r0 \<Rightarrow> r0) @
                              concat (map (block_regs ms (heap s)) (up_blocks (heap s) fs)), s')"
proof -
  from reachable_rep [OF assms] obtain fs where rep: "rep s fs" ..
  have "router s = options"
    using run_router [OF assms] by (simp add: ApiBuilder_def)
  then have "given_router s = (case options of None \<Rightarrow> [] | Some r0 \<Rightarrow> r0)"
    by (simp add: given_router_def)
  with build_rep [OF rep, of ms] rep show ?thesis
    by (auto simp: up_regs_blocks)
qed

lemma rep_blocks:
  assumes "rep s fs"
  shows "fst ` set (up_blocks (heap s) fs) = {..<fresh s}"
    and "(x, P, m) \<in> set (up_blocks (heap s) fs) \<Longrightarrow> path_to (heap s) x P"
proof -
  from assms have ok: "frames_ok (heap s) None fs" and all: "set (all_nodes fs) = {..<fresh s}"
    by (simp_all add: rep_def)
  show "fst ` set (up_blocks (heap s) fs) = {..<fresh s}"
    using all by (simp add: set_up_blocks)
  show "path_to (heap s) x P" if "(x, P, m) \<in> set (up_blocks (heap s) fs)"
    using ok that by (rule up_blocks_path)
qed

lemma pre_blocks_order: "map fst (pre_blocks h P m t) = pre_order t"
proof (induction t arbitrary: P m)
  case (T a ts)
  have eq: "map (\<lambda>c. map fst (pre_blocks h (P @ uri (h (addr_of c)))
                    (m @ middlewares (h (addr_of c))) c)) (rev ts) = map pre_order (rev ts)"
    by (rule map_cong [OF refl]) (simp add: T.IH)
  show ?case
    unfolding pre_blocks.simps pre_order.simps by (simp add: map_concat comp_def eq)
qed

lemma up_blocks_order: "map fst (up_blocks h fs) = up_order fs"
  by (induction fs) (auto simp: up_order_def pre_blocks_order simp del: pre_blocks.simps pre_order.simps)

lemma set_pre_order: "set (pre_order t) = set (nodes t)"
  by (induction t) auto

lemma two_positions:
  assumes "i < j" and "j < length ts"
  shows "\<exists>xs ys zs. ts = xs @ ts ! i # ys @ ts ! j # zs"
proof -
  let ?d = "drop (Suc i) ts"
  have i: "i < length ts"
    using assms by simp
  have 1: "ts = take i ts @ ts ! i # ?d"
    using i by (rule id_take_nth_drop)
  have k: "j - Suc i < length ?d"
    using assms by simp
  have 2: "?d = take (j - Suc i) ?d @ ?d ! (j - Suc i) # drop (Suc (j - Suc i)) ?d"
    using k by (rule id_take_nth_drop)
  have 3: "?d ! (j - Suc i) = ts ! j"
    using assms by simp
  from 1 2 3 have "ts = take i ts @ ts ! i # take (j - Suc i) ?d @ ts ! j # drop (Suc (j - Suc i)) ?d"
    by metis
  then show ?thesis
    by blast
qed

lemma kid_segment:
  assumes "c \<in> set ts"
  shows "\<exists>A B. pre_order (T r ts) = A @ pre_order c @ B"
proof -
  from assms have "c \<in> set (rev ts)"
    by simp
  then obtain xs ys where "rev ts = xs @ c # ys"
    unfolding in_set_conv_decomp by blast
  then have "pre_order (T r ts) = (r # concat (map pre_order xs)) @ pre_order c @
               concat (map pre_order ys)"
    by simp
  then show ?thesis
    by blast
qed

lemma node_regs_block:
  "v \<in> set ms \<Longrightarrow>
   \<exists>pre post. node_regs ms ops P m =
      pre @ map (\<lambda>oper. (v, P @ uri_text (op_uri oper), m @ op_middlewares oper)) (rev (ops v)) @ post"
proof (induction ms arbitrary: ops)
  case Nil
  then show ?case by simp
next
  case (Cons w ms)
  show ?case
  proof (cases "w = v")
    case True
    have "node_regs (w # ms) ops P m =
        [] @ map (\<lambda>oper. (v, P @ uri_text (op_uri oper), m @ op_middlewares oper)) (rev (ops v)) @
        node_regs ms (ops(w := [])) P m"
      by (simp add: True)
    then show ?thesis
      by blast
  next
    case False
    with Cons.prems have v: "v \<in> set ms"
      by simp
    have same: "(ops(w := [])) v = ops v"
      using False by simp
    from Cons.IH [OF v, of "ops(w := [])", unfolded same] obtain pre post where
      "node_regs ms (ops(w := [])) P m =
        pre @ map (\<lambda>oper. (v, P @ uri_text (op_uri oper), m @ op_middlewares oper)) (rev (ops v)) @ post"
      by blast
    then have "node_regs (w # ms) ops P m =
        (map (\<lambda>oper. (w, P @ uri_text (op_uri oper), m @ op_middlewares oper)) (rev (ops w)) @ pre) @
        map (\<lambda>oper. (v, P @ uri_text (op_uri oper), m @ op_middlewares oper)) (rev (ops v)) @ post"
      by simp
    then show ?thesis
      by blast
  qed
qed

lemma blocks_of_order:
  assumes "map fst bs = L1 @ [x] @ L2 @ [y] @ L3"
  shows "\<exists>B1 B2 B3 bx by. bs = B1 @ [bx] @ B2 @ [by] @ B3 \<and> fst bx = x \<and> fst by = y"
proof -
  from assms obtain B1 R1 where 1: "bs = B1 @ R1" "map fst R1 = [x] @ L2 @ [y] @ L3"
    by (auto simp: map_eq_append_conv)
  from 1(2) obtain bx R2 where 2: "R1 = bx # R2" "fst bx = x" "map fst R2 = L2 @ [y] @ L3"
    by (auto simp: map_eq_Cons_conv)
  from 2(3) obtain B2 R3 where 3: "R2 = B2 @ R3" "map fst R3 = [y] @ L3"
    by (auto simp: map_eq_append_conv)
  from 3(2) obtain "by" B3 where 4: "R3 = by # B3" "fst by = y"
    by (auto simp: map_eq_Cons_conv)
  have "bs = B1 @ [bx] @ B2 @ [by] @ B3"
    by (simp add: 1 2 3 4)
  with 2(2) 4(2) show ?thesis
    by blast
qed

lemma pre_blocks_inherited:
  "linked h t \<Longrightarrow> root_chain h None (as @ [addr_of t]) \<Longrightarrow>
   m = concat (map (\<lambda>a. middlewares (h a)) (as @ [addr_of t])) \<Longrightarrow>
   (x, Q, n) \<in> set (pre_blocks h P m t) \<Longrightarrow>
   \<exists>bs. root_chain h None (bs @ [x]) \<and> n = concat (map (\<lambda>a. middlewares (h a)) (bs @ [x]))"
proof (induction t arbitrary: as P m)
  case (T a ts)
  show ?case
  proof (cases "(x, Q, n) = (a, P, m)")
    case True
    with T.prems(2,3) show ?thesis
      by auto
  next
    case False
    with T.prems(4) obtain c where c: "c \<in> set ts"
      and mem: "(x, Q, n) \<in> set (pre_blocks h (P @ uri (h (addr_of c)))
                                    (m @ middlewares (h (addr_of c))) c)"
      by auto
    from T.prems(1) c have par: "parentElement (h (addr_of c)) = Some a" and l: "linked h c"
      by auto
    have ch: "root_chain h None ((as @ [a]) @ [addr_of c])"
      using T.prems(2) par by (simp add: root_chain_append)
    have m: "m @ middlewares (h (addr_of c)) =
             concat (map (\<lambda>a. middlewares (h a)) ((as @ [a]) @ [addr_of c]))"
      using T.prems(3) by simp
    from T.IH [OF c l ch m mem] show ?thesis .
  qed
qed

lemma root_chain_unique:
  "root_chain h None (as @ [x]) \<Longrightarrow> root_chain h None (bs @ [x]) \<Longrightarrow> as = bs"
proof (induction as arbitrary: bs x rule: rev_induct)
  case Nil
  then have "parentElement (h x) = None"
    by simp
  with Nil.prems(2) show ?case
    by (cases bs rule: rev_cases) (auto simp: root_chain_append)
next
  case (snoc a as)
  then have par: "parentElement (h x) = Some a" and ch: "root_chain h None (as @ [a])"
    by (auto simp: root_chain_append)
  show ?case
  proof (cases bs rule: rev_cases)
    case Nil
    with snoc.prems(2) par show ?thesis
      by simp
  next
    case (snoc cs c)
    with snoc.prems(2) par have "c = a" and "root_chain h None (cs @ [a])"
      by (auto simp: root_chain_append)
    with snoc.IH [OF ch] snoc show ?thesis
      by auto
  qed
qed

lemma links_ok_enter:
  assumes "links_ok s"
  shows "links_ok (enter u mws s)"
proof -
  let ?n = "fresh s" and ?h = "heap s" and ?h' = "heap (enter u mws s)"
  from assms have cur: "\<And>c. currentElement s = Some c \<Longrightarrow> c < ?n"
    and wf: "\<And>x p. x < ?n \<Longrightarrow> parentElement (?h x) = Some p \<Longrightarrow>
                 p < ?n \<and> x \<in> set (children (?h p))"
    by (auto simp: links_ok_def wf_links_def)
  have par_n: "parentElement (?h' ?n) = currentElement s"
    by (rule enter_fields(4))
  have par_old: "parentElement (?h' x) = parentElement (?h x)" if "x < ?n" for x
    using that by (auto simp: enter_def Let_def split: option.splits)
  have ch_old: "set (children (?h x)) \<subseteq> set (children (?h' x))" if "x < ?n" for x
    using that by (auto simp: enter_def Let_def split: option.splits)
  have ch_cur: "?n \<in> set (children (?h' c))" if "currentElement s = Some c" for c
    using that cur [OF that] by (simp add: enter_def Let_def)
  have "p < Suc ?n \<and> x \<in> set (children (?h' p))"
    if "x < Suc ?n" "parentElement (?h' x) = Some p" for x p
  proof (cases "x = ?n")
    case True
    with that(2) have "currentElement s = Some p"
      by (simp add: par_n)
    with cur [OF this] ch_cur [OF this] True show ?thesis
      by simp
  next
    case False
    with that(1) have x: "x < ?n" by simp
    with that(2) have "parentElement (?h x) = Some p"
      by (simp add: par_old)
    from wf [OF x this] ch_old [of p] show ?thesis
      by auto
  qed
  then show ?thesis
    by (simp add: links_ok_def wf_links_def enter_fields)
qed

lemma links_ok_end_group:
  assumes "links_ok s"
  shows "links_ok (end_group s)"
proof (cases "currentElement s")
  case None
  with assms show ?thesis
    by (simp add: end_group_def)
next
  case (Some c)
  show ?thesis
  proof (cases "parentElement (heap s c)")
    case None
    with Some assms show ?thesis
      by (simp add: end_group_def)
  next
    case (Some p)
    from assms \<open>currentElement s = Some c\<close> have "c < fresh s"
      by (simp add: links_ok_def)
    with assms Some have "p < fresh s"
      unfolding links_ok_def wf_links_def by blast
    moreover have "end_group s = s\<lparr>currentElement := Some p\<rparr>"
      using Some \<open>currentElement s = Some c\<close> by (simp add: end_group_def)
    ultimately show ?thesis
      using assms by (simp add: links_ok_def)
  qed
qed

lemma links_ok_verb_method:
  assumes "links_ok s" and "verb_method m u mws s = Inr s'"
  shows "links_ok s'"
proof -
  from assms(2) obtain c x where "s' = s\<lparr>heap := (heap s)(c := (heap s c)\<lparr>verbs := x\<rparr>)\<rparr>"
    by (auto simp: verb_method_def Let_def split: option.splits if_splits arg.splits)
  with assms(1) show ?thesis
    by (simp add: links_ok_def wf_links_def)
qed

lemma exec_run_links_ok:
  shows "exec ms c s = Inr s' \<Longrightarrow> links_ok s \<Longrightarrow> links_ok s'"
    and "run ms cs s = Inr s' \<Longrightarrow> links_ok s \<Longrightarrow> links_ok s'"
proof (induction ms c s and ms cs s arbitrary: s' and s' rule: exec_run.induct)
  case (1 ms s)
  then show ?case by simp
next
  case (2 ms c cs s)
  then show ?case by (auto split: sum.splits)
next
  case (3 ms s)
  then show ?case by (auto simp: links_ok_end_group)
next
  case (4 ms name u mws s)
  then show ?case by (auto split: option.splits intro: links_ok_verb_method)
next
  case (5 ms u mws s)
  obtain u' mws1 where pa: "path_args u mws = (u', mws1)" by (cases "path_args u mws")
  have ent: "links_ok (enter u' (butlast mws1) s)"
    using 5(3) by (rule links_ok_enter)
  show ?case
  proof (cases "mws1 = []")
    case True
    with 5(2) pa ent show ?thesis by auto
  next
    case False
    with 5(2) pa obtain s2 where r: "run ms (fn_body (last mws1)) (enter u' (butlast mws1) s) = Inr s2"
      and s': "s' = end_group s2"
      by (auto split: sum.splits if_splits)
    from 5(1) [OF pa [symmetric] refl refl False r ent] show ?thesis
      unfolding s' by (rule links_ok_end_group)
  qed
qed

lemma reachable_wf_links:
  "run ms cs (ApiBuilder options) = Inr s \<Longrightarrow> wf_links (heap s) (fresh s)"
proof -
  have "links_ok (ApiBuilder options)"
    by (simp add: links_ok_def wf_links_def ApiBuilder_def createPathElement_def)
  then show "run ms cs (ApiBuilder options) = Inr s \<Longrightarrow> wf_links (heap s) (fresh s)"
    using exec_run_links_ok(2) by (auto simp: links_ok_def)
qed

lemma below_in_closed_set:
  "wf_links h n \<Longrightarrow> child_closed h S \<Longrightarrow> c \<in> S \<Longrightarrow> root_chain h None (bs @ [x]) \<Longrightarrow>
   c \<in> set (bs @ [x]) \<Longrightarrow> x < n \<Longrightarrow> x \<in> S"
proof (induction bs arbitrary: x rule: rev_induct)
  case Nil
  then show ?case by simp
next
  case (snoc p bs)
  show ?case
  proof (cases "x = c")
    case True
    with snoc.prems(3) show ?thesis by simp
  next
    case False
    from snoc.prems(4) have par: "parentElement (h x) = Some p"
      and ch: "root_chain h None (bs @ [p])"
      by (auto simp: root_chain_append)
    from snoc.prems(1,6) par have p: "p < n" and x: "x \<in> set (children (h p))"
      by (auto simp: wf_links_def)
    have "c \<in> set (bs @ [p])"
      using snoc.prems(5) False by auto
    from snoc.IH [OF snoc.prems(1,2,3) ch this p] have "p \<in> S" .
    with snoc.prems(2) x show ?thesis
      by (auto simp: child_closed_def)
  qed
qed

lemma closed_child_closed: "closed h t \<Longrightarrow> child_closed h (set (nodes t))"
proof (induction t)
  case (T a ts)
  have kid: "child_closed h (set (nodes c))" if "c \<in> set ts" for c
    using that T.prems by (intro T.IH) auto
  have root: "set (children (h a)) \<subseteq> set (nodes (T a ts))"
    using T.prems addr_of_in_nodes by auto
  show ?case
    unfolding child_closed_def
  proof
    fix z assume "z \<in> set (nodes (T a ts))"
    then consider "z = a" | c where "c \<in> set ts" "z \<in> set (nodes c)"
      by auto
    then show "set (children (h z)) \<subseteq> set (nodes (T a ts))"
    proof cases
      case 1
      with root show ?thesis by simp
    next
      case 2
      from kid [OF 2(1)] 2(2) have "set (children (h z)) \<subseteq> set (nodes c)"
        by (simp add: child_closed_def)
      with 2(1) show ?thesis by auto
    qed
  qed
qed

lemma kids_split:
  assumes "i < j" and "j < length ts"
  shows "\<exists>A B. concat (map pre_order (rev ts)) = A @ B \<and>
           set (nodes (ts ! j)) \<subseteq> set A \<and> set (nodes (ts ! i)) \<subseteq> set B"
proof -
  from two_positions [OF assms] obtain xs ys zs where ts: "ts = xs @ ts ! i # ys @ ts ! j # zs"
    by blast
  have "concat (map pre_order (rev ts)) =
          concat (map pre_order (rev (xs @ ts ! i # ys @ ts ! j # zs)))"
    using ts by simp
  also have "\<dots> = (concat (map pre_order (rev zs)) @ pre_order (ts ! j)) @
                  (concat (map pre_order (rev ys)) @ pre_order (ts ! i) @
                   concat (map pre_order (rev xs)))"
    by simp
  finally have eq: "concat (map pre_order (rev ts)) =
      (concat (map pre_order (rev zs)) @ pre_order (ts ! j)) @
      (concat (map pre_order (rev ys)) @ pre_order (ts ! i) @ concat (map pre_order (rev xs)))" .
  have "set (nodes (ts ! j)) \<subseteq> set (concat (map pre_order (rev zs)) @ pre_order (ts ! j))"
    by (simp add: set_pre_order)
  moreover have "set (nodes (ts ! i)) \<subseteq>
      set (concat (map pre_order (rev ys)) @ pre_order (ts ! i) @ concat (map pre_order (rev xs)))"
    by (auto simp: set_pre_order)
  ultimately show ?thesis
    using eq by blast
qed

lemma splits_at_segment:
  assumes "splits_at h seg cj ci" and "whole = X @ seg @ Y"
  shows "splits_at h whole cj ci"
proof -
  from assms(1) obtain A B Sj Si where seg: "seg = A @ B"
    and s: "cj \<in> Sj" "child_closed h Sj" "Sj \<subseteq> set A" "ci \<in> Si" "child_closed h Si" "Si \<subseteq> set B"
    unfolding splits_at_def by blast
  have "whole = (X @ A) @ (B @ Y)"
    using assms(2) seg by simp
  moreover have "Sj \<subseteq> set (X @ A)" "Si \<subseteq> set (B @ Y)"
    using s(3,6) by auto
  ultimately show ?thesis
    unfolding splits_at_def using s(1,2,4,5) by blast
qed

lemma kids_splits_at:
  assumes "i < j" and "j < length ts" and "\<And>t. t \<in> set ts \<Longrightarrow> closed h t"
  shows "splits_at h (concat (map pre_order (rev ts))) (addr_of (ts ! j)) (addr_of (ts ! i))"
proof -
  from kids_split [OF assms(1,2)] obtain A B where "concat (map pre_order (rev ts)) = A @ B"
    and "set (nodes (ts ! j)) \<subseteq> set A" and "set (nodes (ts ! i)) \<subseteq> set B"
    by blast
  moreover have "child_closed h (set (nodes (ts ! j)))" "child_closed h (set (nodes (ts ! i)))"
    using assms by (auto intro!: closed_child_closed)
  moreover have "addr_of (ts ! j) \<in> set (nodes (ts ! j))" "addr_of (ts ! i) \<in> set (nodes (ts ! i))"
    by (rule addr_of_in_nodes)+
  ultimately show ?thesis
    unfolding splits_at_def by blast
qed

lemma closed_splits_at:
  "closed h t \<Longrightarrow> a \<in> set (nodes t) \<Longrightarrow> i < j \<Longrightarrow> j < length (children (h a)) \<Longrightarrow>
   splits_at h (pre_order t) (children (h a) ! j) (children (h a) ! i)"
proof (induction t)
  case (T r ts)
  show ?case
  proof (cases "a = r")
    case True
    from T.prems(1) have ch: "children (h a) = map addr_of ts"
      and cl: "\<And>t. t \<in> set ts \<Longrightarrow> closed h t"
      by (simp_all add: True)
    then have j: "j < length ts"
      using T.prems(4) by simp
    have c: "children (h a) ! j = addr_of (ts ! j)" "children (h a) ! i = addr_of (ts ! i)"
      using j T.prems(3) by (simp_all add: ch)
    have "pre_order (T r ts) = [r] @ concat (map pre_order (rev ts)) @ []"
      by simp
    with kids_splits_at [OF T.prems(3) j cl] show ?thesis
      unfolding c by (rule splits_at_segment)
  next
    case False
    with T.prems(2) obtain c where c: "c \<in> set ts" and a: "a \<in> set (nodes c)"
      by auto
    from T.prems(1) c have "closed h c"
      by simp
    from T.IH [OF c this a T.prems(3,4)]
    have seg: "splits_at h (pre_order c) (children (h a) ! j) (children (h a) ! i)" .
    from kid_segment [OF c] obtain A B where "pre_order (T r ts) = A @ pre_order c @ B"
      by blast
    from splits_at_segment [OF seg this] show ?thesis .
  qed
qed

lemma frames_splits_at:
  "frames_ok h below fs \<Longrightarrow> (\<And>b. below = Some b \<Longrightarrow> b \<in> set pre) \<Longrightarrow>
   child_closed h (set pre) \<Longrightarrow>
   a \<in> set (all_nodes fs) \<Longrightarrow> i < j \<Longrightarrow> j < length (children (h a)) \<Longrightarrow>
   splits_at h (pre @ up_order fs) (children (h a) ! j) (children (h a) ! i)"
proof (induction fs arbitrary: below pre)
  case Nil
  then show ?case by simp
next
  case (Cons f fs)
  obtain r ts where f: "f = (r, ts)" by (cases f)
  have whole: "pre @ up_order (f # fs) = pre @ pre_order (T r ts) @ up_order fs"
    by (simp add: up_order_def f)
  from Cons.prems(1) have ok: "frames_ok h (Some r) fs"
    and cl: "\<And>t. t \<in> set ts \<Longrightarrow> closed h t"
    by (auto simp: f)
  consider (root) "a = r" | (kid) c where "a \<noteq> r" "c \<in> set ts" "a \<in> set (nodes c)"
    | (rest) "a \<noteq> r" "a \<in> set (all_nodes fs)"
    using Cons.prems(4) by (auto simp: f)
  then show ?case
  proof cases
    case root
    show ?thesis
    proof (cases "j < length ts")
      case True
      from Cons.prems(1) have ch: "children (h a) ! j = addr_of (ts ! j)"
        "children (h a) ! i = addr_of (ts ! i)"
        using True Cons.prems(5) by (cases below; simp add: f root nth_append)+
      have "pre @ up_order (f # fs) = (pre @ [r]) @ concat (map pre_order (rev ts)) @ up_order fs"
        unfolding whole by simp
      with kids_splits_at [OF Cons.prems(5) True cl] show ?thesis
        unfolding ch by (rule splits_at_segment)
    next
      case False
      with Cons.prems(1,6) obtain b where b: "below = Some b"
        and ch: "children (h a) = map addr_of ts @ [b]"
        by (cases below) (auto simp: f root)
      have j: "j = length ts"
        using False Cons.prems(6) by (simp add: ch)
      then have cj: "children (h a) ! j = b"
        by (simp add: ch nth_append)
      have i: "i < length ts"
        using Cons.prems(5) j by simp
      then have ci: "children (h a) ! i = addr_of (ts ! i)"
        by (simp add: ch nth_append)
      have ti: "ts ! i \<in> set ts"
        using i by simp
      have "set (nodes (ts ! i)) \<subseteq> set (pre_order (T r ts) @ up_order fs)"
        using nodes_kid_subset [OF ti] by (auto simp: set_pre_order)
      moreover have "child_closed h (set (nodes (ts ! i)))"
        using cl [OF ti] by (rule closed_child_closed)
      moreover have "addr_of (ts ! i) \<in> set (nodes (ts ! i))"
        by (rule addr_of_in_nodes)
      moreover have "b \<in> set pre"
        using b by (rule Cons.prems(2))
      ultimately show ?thesis
        unfolding splits_at_def whole cj ci using Cons.prems(3) by blast
    qed
  next
    case kid
    from closed_splits_at [OF cl [OF kid(2)] kid(3) Cons.prems(5,6)]
    have seg: "splits_at h (pre_order c) (children (h a) ! j) (children (h a) ! i)" .
    from kid_segment [OF kid(2)] obtain A B where "pre_order (T r ts) = A @ pre_order c @ B"
      by blast
    then have "pre @ up_order (f # fs) = (pre @ A) @ pre_order c @ (B @ up_order fs)"
      unfolding whole by simp
    from splits_at_segment [OF seg this] show ?thesis .
  next
    case rest
    have r: "r \<in> set (pre @ pre_order (T r ts))"
      by simp
    have cc: "child_closed h (set (pre @ pre_order (T r ts)))"
      unfolding child_closed_def
    proof
      fix z assume "z \<in> set (pre @ pre_order (T r ts))"
      then consider "z \<in> set pre" | "z = r" | t where "t \<in> set ts" "z \<in> set (nodes t)"
        by (auto simp: set_pre_order)
      then show "set (children (h z)) \<subseteq> set (pre @ pre_order (T r ts))"
      proof cases
        case 1
        with Cons.prems(3) show ?thesis
          by (auto simp: child_closed_def)
      next
        case 2
        have "set (map addr_of ts) \<subseteq> set (pre_order (T r ts))"
          using addr_of_in_nodes by (auto simp: set_pre_order)
        moreover have "set (children (h r)) \<subseteq> set (map addr_of ts) \<union> set pre"
          using Cons.prems(1,2) by (cases below) (auto simp: f)
        ultimately show ?thesis
          unfolding 2 set_append by blast
      next
        case 3
        from closed_child_closed [OF cl [OF 3(1)]] 3(2)
        have "set (children (h z)) \<subseteq> set (nodes t)"
          by (simp add: child_closed_def)
        with 3(1) show ?thesis
          by (auto simp: set_pre_order)
      qed
    qed
    have "splits_at h ((pre @ pre_order (T r ts)) @ up_order fs)
            (children (h a) ! j) (children (h a) ! i)"
      using ok r cc rest(2) Cons.prems(5,6) by (intro Cons.IH) auto
    then show ?thesis
      unfolding whole by simp
  qed
qed

lemma splits_at_order:
  assumes "splits_at h xs cj ci" and "wf_links h n"
    and "root_chain h None (cx @ [x])" and "cj \<in> set (cx @ [x])" and "x < n"
    and "root_chain h None (cy @ [y])" and "ci \<in> set (cy @ [y])" and "y < n"
  shows "\<exists>L1 L2 L3. xs = L1 @ [x] @ L2 @ [y] @ L3"
proof -
  from assms(1) obtain A B Sj Si where xs: "xs = A @ B"
    and s: "cj \<in> Sj" "child_closed h Sj" "Sj \<subseteq> set A" "ci \<in> Si" "child_closed h Si" "Si \<subseteq> set B"
    unfolding splits_at_def by blast
  from below_in_closed_set [OF assms(2) s(2,1) assms(3,4,5)] s(3) have "x \<in> set A"
    by blast
  then obtain A1 A2 where A: "A = A1 @ x # A2"
    unfolding in_set_conv_decomp by blast
  from below_in_closed_set [OF assms(2) s(5,4) assms(6,7,8)] s(6) have "y \<in> set B"
    by blast
  then obtain B1 B2 where B: "B = B1 @ y # B2"
    unfolding in_set_conv_decomp by blast
  have "xs = A1 @ [x] @ (A2 @ B1) @ [y] @ B2"
    by (simp add: xs A B)
  then show ?thesis
    by blast
qed

section \<open>Verb methods\<close>

text \<open>
  Claim C8. A verb method called on an instance with a function in first position does not
  throw: it records, on the current element, an operation whose uri is the empty string and
  whose middlewares are that function followed by the other arguments. The path that
  \<^verbatim>\<open>mountUri\<close> gives this operation, in the heap that the call leaves, is the path of
  the group itself: the uri fragments along the parent chain of the current element, from
  the root to that element.
\<close>

theorem verb_function_first:
  assumes inst: "this_instance s" and cur: "currentElement s = Some c"
    and look: "lookup_method ms name = Some method"
    and chain: "root_chain (heap s) None (as @ [c])"
  shows "exec ms (Verb name (Function f) mws) s =
           Inr (s\<lparr>heap := (heap s)(c := (heap s c)\<lparr>verbs := (verbs (heap s c))
                  (method := verbs (heap s c) method @
                     [\<lparr>op_uri = Some [], op_middlewares = f # mws\<rparr>])\<rparr>)\<rparr>) \<and>
         mountUri ((heap s)(c := (heap s c)\<lparr>verbs := (verbs (heap s c))
                  (method := verbs (heap s c) method @
                     [\<lparr>op_uri = Some [], op_middlewares = f # mws\<rparr>])\<rparr>))
             c \<lparr>op_uri = Some [], op_middlewares = f # mws\<rparr> =
           Some (concat (map (\<lambda>x. uri (heap s x)) (as @ [c])))"
proof -
  let ?op = "\<lparr>op_uri = Some [], op_middlewares = f # mws\<rparr>"
  let ?h = "(heap s)(c := (heap s c)\<lparr>verbs := (verbs (heap s c))
                  (method := verbs (heap s c) method @ [?op])\<rparr>)"
  have 1: "exec ms (Verb name (Function f) mws) s = Inr (s\<lparr>heap := ?h\<rparr>)"
    using inst cur look by (simp add: verb_method_def)
  have par: "parentElement (?h x) = parentElement (heap s x)" for x
    by simp
  have u: "uri (?h x) = uri (heap s x)" for x
    by simp
  have "root_chain ?h None (as @ [c])"
    using chain root_chain_cong [of "as @ [c]" ?h "heap s" None] par by blast
  moreover have "joined ?h (as @ [c]) = joined (heap s) (as @ [c])"
    using joined_cong [of "as @ [c]" ?h "heap s"] u by blast
  ultimately have "path_to ?h c (joined (heap s) (as @ [c]))"
    unfolding path_to_def by metis
  from mountUri_path [OF this, of ?op]
  have 2: "mountUri ?h c ?op = Some (concat (map (\<lambda>x. uri (heap s x)) (as @ [c])))"
    by (simp add: uri_text_def joined_def)
  from 1 2 show ?thesis
    by (rule conjI)
qed

theorem verb_function_first_witness:
  "this_instance (enter ''/a'' [] (ApiBuilder None)) \<and>
   currentElement (enter ''/a'' [] (ApiBuilder None)) = Some 1 \<and>
   lookup_method [''get'', ''delete''] ''del'' = Some ''delete'' \<and>
   root_chain (heap (enter ''/a'' [] (ApiBuilder None))) None ([0] @ [1]) \<and>
   map_sum id (\<lambda>s. (map (\<lambda>x. (op_uri x, op_middlewares x)) (verbs (heap s 1) ''delete''),
                     mountUri (heap s) 1 \<lparr>op_uri = Some [], op_middlewares = [Fn 0 [], Fn 1 []]\<rparr>))
     (exec [''get'', ''delete''] (Verb ''del'' (Function (Fn 0 [])) [Fn 1 []])
        (enter ''/a'' [] (ApiBuilder None))) =
     Inr ([(Some [], [Fn 0 [], Fn 1 []])], Some ''/a'')"
proof -
  let ?s = "enter ''/a'' [] (ApiBuilder None)"
  let ?op = "\<lparr>op_uri = Some [], op_middlewares = [Fn 0 [], Fn 1 []]\<rparr>"
  have a: "this_instance ?s"
    by (simp add: enter_fields ApiBuilder_def)
  have b: "currentElement ?s = Some 1"
    by (simp add: enter_fields ApiBuilder_def)
  have c: "lookup_method [''get'', ''delete''] ''del'' = Some ''delete''"
    by (simp add: lookup_method_def)
  have d: "root_chain (heap ?s) None ([0] @ [1])"
    by (simp add: enter_def ApiBuilder_def createPathElement_def Let_def)
  have e: "concat (map (\<lambda>x. uri (heap ?s x)) ([0] @ [1])) = ''/a''"
    by (simp add: enter_def ApiBuilder_def createPathElement_def Let_def)
  have f: "verbs (heap ?s 1) ''delete'' = []"
    by (simp add: enter_def ApiBuilder_def createPathElement_def Let_def)
  let ?h = "(heap ?s)(1 := (heap ?s 1)\<lparr>verbs := (verbs (heap ?s 1))
                  (''delete'' := verbs (heap ?s 1) ''delete'' @ [?op])\<rparr>)"
  from verb_function_first [OF a b c d, of "Fn 0 []" "[Fn 1 []]"]
  have g: "exec [''get'', ''delete''] (Verb ''del'' (Function (Fn 0 [])) [Fn 1 []]) ?s =
             Inr (?s\<lparr>heap := ?h\<rparr>)"
    and h: "mountUri ?h 1 ?op = Some (concat (map (\<lambda>x. uri (heap ?s x)) ([0] @ [1])))"
    by blast+
  have "map_sum id (\<lambda>s. (map (\<lambda>x. (op_uri x, op_middlewares x)) (verbs (heap s 1) ''delete''),
                     mountUri (heap s) 1 ?op))
     (exec [''get'', ''delete''] (Verb ''del'' (Function (Fn 0 [])) [Fn 1 []]) ?s) =
     Inr ([(Some [], [Fn 0 [], Fn 1 []])], Some ''/a'')"
    unfolding g using f h [unfolded e] by simp
  with a b c d show ?thesis
    by blast
qed

section \<open>Groups and their callback\<close>

text \<open>
  Claim C3, as the code has it. When the argument list of \<^verbatim>\<open>path\<close> ends with a
  function, that function is called at once with the cursor on the new child element, whose
  parent is the element that was current. When it returns, \<^verbatim>\<open>path\<close> calls
  \<^verbatim>\<open>end\<close> once, from wherever the callback left the cursor: the cursor is back on
  the element that was current before the call if the callback left it on the new child.
\<close>

theorem path_callback_cursor:
  assumes inst: "this_instance s" and cur: "currentElement s = Some c"
    and args: "path_args u mws = (u', mws1)" and ne: "mws1 \<noteq> []"
    and cb: "run ms (fn_body (last mws1)) (enter u' (butlast mws1) s) = Inr s2"
  shows "currentElement (enter u' (butlast mws1) s) = Some (fresh s) \<and>
         parentElement (heap (enter u' (butlast mws1) s) (fresh s)) = Some c \<and>
         exec ms (Path u mws) s = Inr (end_group s2) \<and>
         (currentElement s2 = Some (fresh s) \<longrightarrow> currentElement (end_group s2) = Some c)"
proof -
  let ?s1 = "enter u' (butlast mws1) s"
  have ext: "extends ?s1 s2"
    using cb by (rule exec_run_extends(2))
  then have inst2: "this_instance s2"
    using inst by (simp add: extends_def enter_fields)
  have par: "parentElement (heap s2 (fresh s)) = Some c"
    using ext cur by (simp add: extends_def enter_fields)
  have "exec ms (Path u mws) s = Inr (end_group s2)"
    using args ne cb inst2 by (simp add: exec_Path del: exec.simps)
  moreover have "currentElement s2 = Some (fresh s) \<Longrightarrow> currentElement (end_group s2) = Some c"
    using par by (simp add: end_group_def)
  ultimately show ?thesis
    using cur by (simp add: enter_fields)
qed

theorem path_callback_cursor_witness:
  "this_instance (ApiBuilder None) \<and> currentElement (ApiBuilder None) = Some 0 \<and>
   path_args (Str ''/a'') [Fn 1 [Verb ''get'' (Undefined) []]] =
     (''/a'', [Fn 1 [Verb ''get'' (Undefined) []]]) \<and>
   map_sum id currentElement
     (exec [''get''] (Path (Str ''/a'') [Fn 1 [Verb ''get'' (Undefined) []]]) (ApiBuilder None)) =
     Inr (Some 0)"
proof -
  let ?f = "Fn 1 [Verb ''get'' (Undefined) []]"
  let ?s1 = "enter ''/a'' (butlast [?f]) (ApiBuilder None)"
  let ?s2 = "projr (run [''get''] (fn_body (last [?f])) ?s1)"
  have a: "this_instance (ApiBuilder None)"
    by (simp add: ApiBuilder_def)
  have b: "currentElement (ApiBuilder None) = Some 0"
    by (simp add: ApiBuilder_def)
  have c: "path_args (Str ''/a'') [?f] = (''/a'', [?f])"
    by (simp add: path_args_def)
  have d: "[?f] \<noteq> []"
    by simp
  have e: "run [''get''] (fn_body (last [?f])) ?s1 = Inr ?s2"
    by (simp add: lookup_method_def verb_method_def enter_fields a)
  have f: "currentElement ?s2 = Some (fresh (ApiBuilder None))"
    by (simp add: lookup_method_def verb_method_def enter_fields a)
  from path_callback_cursor [OF a b c d e] f
  have "exec [''get''] (Path (Str ''/a'') [?f]) (ApiBuilder None) = Inr (end_group ?s2)"
    and "currentElement (end_group ?s2) = Some 0"
    by blast+
  then show ?thesis
    using a b c by (simp del: exec.simps)
qed

text \<open>The claim as written fails when the callback leaves a nested group open: the cursor
  ends on the new child, not on the root that was current before the call.\<close>

theorem path_callback_cursor_counterexample:
  "currentElement (ApiBuilder None) = Some 0 \<and>
   map_sum id currentElement
     (exec [] (Path (Str ''/a'') [Fn 1 [Path (Str ''/b'') []]]) (ApiBuilder None)) =
     Inr (Some 1)"
  by code_simp

text \<open>
  Claim C4, as the code has it. \<^verbatim>\<open>path\<close> called on an instance takes the last function
  of its argument list, whatever that function is, out of the list and calls it as the
  callback; the middlewares of the new element are the arguments before it. With no function
  argument there is no callback and the new element has no middlewares.
\<close>

theorem path_pops_last_function:
  assumes inst: "this_instance s" and args: "path_args u mws = (u', mws1)"
  shows "exec ms (Path u mws) s =
           (if mws1 = [] then Inr (enter u' [] s)
            else (case run ms (fn_body (last mws1)) (enter u' (butlast mws1) s) of
                    Inl e \<Rightarrow> Inl e
                  | Inr s2 \<Rightarrow> Inr (end_group s2))) \<and>
         (\<forall>s'. exec ms (Path u mws) s = Inr s' \<longrightarrow>
                middlewares (heap s' (fresh s)) = butlast mws1)"
proof -
  let ?s1 = "enter u' (butlast mws1) s"
  have keep: "this_instance s2 \<and> middlewares (heap (end_group s2) (fresh s)) = butlast mws1"
    if "run ms (fn_body (last mws1)) ?s1 = Inr s2" for s2
  proof -
    have "extends ?s1 s2"
      using that by (rule exec_run_extends(2))
    then show ?thesis
      using inst by (simp add: extends_def enter_fields end_group_def split: option.splits)
  qed
  have first: "exec ms (Path u mws) s =
           (if mws1 = [] then Inr (enter u' [] s)
            else (case run ms (fn_body (last mws1)) ?s1 of
                    Inl e \<Rightarrow> Inl e
                  | Inr s2 \<Rightarrow> Inr (end_group s2)))"
    using args keep by (auto simp: exec_Path simp del: exec.simps split: sum.splits)
  have "middlewares (heap s' (fresh s)) = butlast mws1" if "exec ms (Path u mws) s = Inr s'" for s'
    using that keep unfolding first by (auto simp: enter_fields split: if_splits sum.splits)
  with first show ?thesis by blast
qed

theorem path_pops_last_function_witness:
  "this_instance (ApiBuilder None) \<and>
   path_args (Function (Fn 1 [])) [Fn 2 [], Fn 3 []] = ([], [Fn 1 [], Fn 2 [], Fn 3 []]) \<and>
   map_sum id (\<lambda>s. middlewares (heap s 1))
     (exec [] (Path (Function (Fn 1 [])) [Fn 2 [], Fn 3 []]) (ApiBuilder None)) =
     Inr [Fn 1 [], Fn 2 []]"
proof -
  let ?e = "exec [] (Path (Function (Fn 1 [])) [Fn 2 [], Fn 3 []]) (ApiBuilder None)"
  have a: "this_instance (ApiBuilder None)"
    by (simp add: ApiBuilder_def)
  have b: "path_args (Function (Fn 1 [])) [Fn 2 [], Fn 3 []] = ([], [Fn 1 [], Fn 2 [], Fn 3 []])"
    by (simp add: path_args_def)
  have c: "?e = Inr (projr ?e)"
    by (simp add: path_args_def a enter_fields)
  from path_pops_last_function [OF a b, of "[]"] c
  have "middlewares (heap (projr ?e) (fresh (ApiBuilder None))) =
          butlast [Fn 1 [], Fn 2 [], Fn 3 []]"
    by blast
  then have "middlewares (heap (projr ?e) 1) = [Fn 1 [], Fn 2 []]"
    by (simp add: ApiBuilder_def)
  with c have "map_sum id (\<lambda>s. middlewares (heap s 1)) ?e = Inr [Fn 1 [], Fn 2 []]"
    by (metis map_sum.simps(2))
  with a b show ?thesis
    by blast
qed

text \<open>The claim as written fails for a handler passed last: \<^verbatim>\<open>path('/hello', foo)\<close>
  leaves the new element without middlewares and, having called \<^verbatim>\<open>foo\<close> with the
  builder, walks back to the root.\<close>

theorem path_pops_last_function_counterexample:
  "map_sum id (\<lambda>s. (middlewares (heap s 1), currentElement s))
     (exec [] (Path (Str ''/hello'') [Fn 0 []]) (ApiBuilder None)) = Inr ([], Some 0)"
  by code_simp

section \<open>Calls without a receiver\<close>

text \<open>
  Claim C7, at \<^verbatim>\<open>const {get, path} = new ApiBuilder(); get('/x'); path('/x')\<close>. The
  verb method throws the error of the source. \<^verbatim>\<open>path\<close> has no such test: it makes an
  element without parent, stores it as \<^verbatim>\<open>currentElement\<close> of the global object and
  returns normally.
\<close>

theorem path_without_receiver:
  "map_sum id fresh
     (exec [''get''] (Verb ''get'' (Str ''/x'') []) (globalThis (heap (ApiBuilder None)) 1)) =
     Inl (Error ''don't destructure the builder'') \<and>
   map_sum id (\<lambda>s. (this_instance s, currentElement s, fresh s,
                     parentElement (heap s 1), uri (heap s 1)))
     (exec [''get''] (Path (Str ''/x'') []) (globalThis (heap (ApiBuilder None)) 1)) =
     Inr (False, Some 1, 2, None, ''/x'')"
  by code_simp

section \<open>Stored middlewares\<close>

text \<open>
  Claim C9, as the code has it. No sequence of declarations (\<^verbatim>\<open>path\<close>, \<^verbatim>\<open>end\<close>,
  verb methods, callbacks included) changes the middlewares stored in an element that
  exists already.
\<close>

theorem declarations_keep_middlewares:
  assumes "run ms cs s = Inr s'" and "a < fresh s"
  shows "middlewares (heap s' a) = middlewares (heap s a)"
  using exec_run_extends(2) [OF assms(1)] assms(2) by (simp add: extends_def)

theorem declarations_keep_middlewares_witness:
  "1 < fresh (enter ''/a'' [Fn 1 []] (ApiBuilder None)) \<and>
   map_sum id (\<lambda>s. middlewares (heap s 1))
     (run [''get''] [Verb ''get'' (Str ''/x'') [Fn 2 []], Path (Str ''/b'') [Fn 3 [], Fn 4 []]]
        (enter ''/a'' [Fn 1 []] (ApiBuilder None))) = Inr [Fn 1 []]"
proof -
  let ?s = "enter ''/a'' [Fn 1 []] (ApiBuilder None)"
  let ?r = "run [''get''] [Verb ''get'' (Str ''/x'') [Fn 2 []], Path (Str ''/b'') [Fn 3 [], Fn 4 []]] ?s"
  have a: "1 < fresh ?s"
    by (simp add: enter_fields ApiBuilder_def)
  have inst: "this_instance ?s"
    by (simp add: enter_fields ApiBuilder_def)
  have b: "?r = Inr (projr ?r)"
    using inst by (simp add: lookup_method_def verb_method_def path_args_def enter_fields)
  from declarations_keep_middlewares [OF b a]
  have "middlewares (heap (projr ?r) 1) = middlewares (heap ?s 1)" .
  also have "\<dots> = [Fn 1 []]"
    using enter_fields(5) [of "''/a''" "[Fn 1 []]" "ApiBuilder None"] by (simp add: ApiBuilder_def)
  finally have "map_sum id (\<lambda>s. middlewares (heap s 1)) ?r = Inr [Fn 1 []]"
    using b by (metis map_sum.simps(2))
  with a show ?thesis
    by blast
qed

text \<open>The claim as written fails in \<^verbatim>\<open>build\<close>: after
  \<^verbatim>\<open>path('/a', mwA, g => g.path('/b', mwB, g => {}))\<close> the element of \<^verbatim>\<open>/b\<close>
  stores \<^verbatim>\<open>[mwB]\<close>, and after \<^verbatim>\<open>build\<close> it stores \<^verbatim>\<open>[mwA, mwB]\<close>.\<close>

theorem build_reassigns_middlewares_counterexample:
  "(case run [] [Path (Str ''/a'') [Fn 1 [], Fn 9 [Path (Str ''/b'') [Fn 2 [], Fn 8 []]]]]
           (ApiBuilder None) of
      Inl e \<Rightarrow> None
    | Inr s \<Rightarrow> map_option (\<lambda>(r, s'). (middlewares (heap s 2), middlewares (heap s' 2)))
                 (build [] s)) =
   Some ([Fn 2 []], [Fn 1 [], Fn 2 []])"
  by code_simp

section \<open>Inherited middlewares\<close>

text \<open>
  Claim C1, at
  \<^verbatim>\<open>new ApiBuilder().path('/a', mwA, g => { g.path('/b').path('/c').get('/x', h) }).build()\<close>.
  The callback leaves the cursor on \<^verbatim>\<open>/c\<close> and \<^verbatim>\<open>path\<close> walks back one level, so
  \<^verbatim>\<open>build\<close> starts on the element of \<^verbatim>\<open>/b\<close> (address 2), whose ancestor
  \<^verbatim>\<open>/a\<close> (address 1) declares \<^verbatim>\<open>mwA\<close> (\<open>Fn 1 []\<close>). The operation is registered
  at \<^verbatim>\<open>/a/b/c/x\<close> with the chain \<^verbatim>\<open>[h]\<close> alone.
\<close>

theorem build_below_root_drops_inherited:
  "(case run [''get'']
           [Path (Str ''/a'') [Fn 1 [], Fn 9 [Path (Str ''/b'') [], Path (Str ''/c'') [],
                                             Verb ''get'' (Str ''/x'') [Fn 2 []]]]]
           (ApiBuilder None) of
      Inl e \<Rightarrow> None
    | Inr s \<Rightarrow> map_option (\<lambda>(r, s'). (currentElement s,
                    map (\<lambda>a. (parentElement (heap s a), middlewares (heap s a))) [0..<fresh s],
                    r)) (build [''get''] s)) =
   Some (Some 2, [(None, []), (Some 0, [Fn 1 []]), (Some 1, []), (Some 2, [])],
         [(''get'', ''/a/b/c/x'', [Fn 2 []])])"
  by code_simp

text \<open>
  When \<^verbatim>\<open>build\<close> starts on the root, which is where a builder stands whose groups
  are all closed, the chain of every registration is the middlewares declared along the
  parent chain of the element, root first, followed by those of the operation: the loop
  hands the middlewares down when it descends, and only then.
\<close>

lemma build_from_root_inherits:
  assumes "run ms cs (ApiBuilder options) = Inr s"
    and "currentElement s = Some c" and "parentElement (heap s c) = None"
  shows "\<exists>new s'.
     build ms s = Some ((case options of None \<Rightarrow> [] | Some r0 \<Rightarrow> r0) @ new, s') \<and>
     (\<forall>(v, p, ch)\<in>set new. \<exists>as a oper.
         a < fresh s \<and> root_chain (heap s) None (as @ [a]) \<and>
         v \<in> set ms \<and> oper \<in> set (verbs (heap s a) v) \<and>
         p = concat (map (\<lambda>x. uri (heap s x)) (as @ [a])) @ uri_text (op_uri oper) \<and>
         ch = concat (map (\<lambda>x. middlewares (heap s x)) (as @ [a])) @ op_middlewares oper)"
proof -
  let ?h = "heap s"
  from build_blocks [OF assms(1)] obtain fs s' where rep: "rep s fs"
    and b: "build ms s = Some ((case options of None \<Rightarrow> [] | Some r0 \<Rightarrow> r0) @
                              concat (map (block_regs ms ?h) (up_blocks ?h fs)), s')"
    by blast
  let ?new = "concat (map (block_regs ms ?h) (up_blocks ?h fs))"
  obtain c' ts rest where fs: "fs = (c', ts) # rest"
    using rep by (cases fs) (auto simp: rep_def)
  from rep assms(2) have c': "c' = c" and ok: "frames_ok ?h None ((c, ts) # rest)"
    by (auto simp: rep_def fs)
  have rest: "rest = []"
  proof (cases rest)
    case (Cons f fs')
    then show ?thesis
      using ok assms(3) by (cases f) auto
  qed simp
  have l: "linked ?h (T c ts)"
    using ok by (rule frames_linked)
  have root: "root_chain ?h None ([] @ [addr_of (T c ts)])"
    using assms(3) by simp
  have blocks: "up_blocks ?h fs = pre_blocks ?h (joined ?h [c]) (middlewares (?h c)) (T c ts)"
    by (simp add: fs c' rest)
  let ?S = "\<lambda>v p ch. \<exists>as a oper.
         a < fresh s \<and> root_chain ?h None (as @ [a]) \<and>
         v \<in> set ms \<and> oper \<in> set (verbs (?h a) v) \<and>
         p = concat (map (\<lambda>x. uri (?h x)) (as @ [a])) @ uri_text (op_uri oper) \<and>
         ch = concat (map (\<lambda>x. middlewares (?h x)) (as @ [a])) @ op_middlewares oper"
  have sound: "?S v p ch" if "(v, p, ch) \<in> set ?new" for v p ch
  proof -
    from that obtain x P m where blk: "(x, P, m) \<in> set (up_blocks ?h fs)"
      and reg: "(v, p, ch) \<in> set (node_regs ms (verbs (?h x)) P m)"
      by (auto simp: block_regs_def)
    from reg obtain oper where v: "v \<in> set ms" and oper: "oper \<in> set (verbs (?h x) v)"
      and p: "p = P @ uri_text (op_uri oper)" and ch: "ch = m @ op_middlewares oper"
      by (auto simp: node_regs_set)
    from pre_blocks_inherited [OF l root _ blk [unfolded blocks]]
    obtain bs where chain: "root_chain ?h None (bs @ [x])"
      and m: "m = concat (map (\<lambda>a. middlewares (?h a)) (bs @ [x]))"
      by auto
    from rep_blocks(2) [OF rep blk] obtain as where chain': "root_chain ?h None (as @ [x])"
      and P: "P = joined ?h (as @ [x])"
      by (auto simp: path_to_def)
    have "as = bs"
      using chain chain' by (rule root_chain_unique [symmetric])
    have "fst (x, P, m) \<in> fst ` set (up_blocks ?h fs)"
      using blk by (rule imageI)
    then have "x < fresh s"
      unfolding rep_blocks(1) [OF rep] by simp
    with chain v oper p ch m P \<open>as = bs\<close> show ?thesis
      unfolding joined_def by blast
  qed
  have 1: "\<forall>(v, p, ch)\<in>set ?new. ?S v p ch"
  proof (rule ballI)
    fix reg assume mem: "reg \<in> set ?new"
    obtain v p ch where reg: "reg = (v, p, ch)"
      by (cases reg) auto
    from sound [OF mem [unfolded reg]] show "case reg of (v, p, ch) \<Rightarrow> ?S v p ch"
      unfolding reg prod.case .
  qed
  show ?thesis
    by (rule exI [of _ ?new], rule exI [of _ s']) (rule conjI [OF b 1])
qed

lemma build_from_root_inherits_example:
  "\<exists>new s'.
     build [''get''] example_state = Some (new, s') \<and>
     (\<forall>(v, p, ch)\<in>set new. \<exists>as a oper.
         root_chain (heap example_state) None (as @ [a]) \<and>
         oper \<in> set (verbs (heap example_state a) v) \<and>
         ch = concat (map (\<lambda>x. middlewares (heap example_state x)) (as @ [a])) @
              op_middlewares oper)"
proof -
  have "\<not> isl (run [''get'']
     [Verb ''get'' Undefined [Fn 1 []], Verb ''get'' Undefined [Fn 2 []],
      Path (Str ''/a'') [Fn 8 [Verb ''get'' (Str ''/x'') [Fn 3 []]]],
      Path (Str ''/b'') [Fn 9 [Verb ''get'' Undefined [Fn 4 []]]]]
     (ApiBuilder None))"
    by code_simp
  then have a: "run [''get'']
     [Verb ''get'' Undefined [Fn 1 []], Verb ''get'' Undefined [Fn 2 []],
      Path (Str ''/a'') [Fn 8 [Verb ''get'' (Str ''/x'') [Fn 3 []]]],
      Path (Str ''/b'') [Fn 9 [Verb ''get'' Undefined [Fn 4 []]]]]
     (ApiBuilder None) = Inr example_state"
    unfolding example_state_def by simp
  have b: "currentElement example_state = Some 0"
    by code_simp
  have c: "parentElement (heap example_state 0) = None"
    by code_simp
  from build_from_root_inherits [OF a b c] show ?thesis
    by (simp add: case_prod_beta) blast
qed

section \<open>Termination of build\<close>

text \<open>
  Claim C10. In every state that a sequence of \<^verbatim>\<open>path\<close>, \<^verbatim>\<open>end\<close> and verb calls
  (callbacks included) reaches from a new builder, wherever the cursor is left, the loop of
  \<^verbatim>\<open>build\<close> ends and \<^verbatim>\<open>build\<close> returns.
\<close>

theorem build_terminates:
  assumes "run ms cs (ApiBuilder options) = Inr s"
  shows "\<exists>r s'. build ms s = Some (r, s')"
proof -
  from reachable_rep [OF assms] obtain fs where "rep s fs" ..
  from build_rep [OF this, of ms] show ?thesis
    by blast
qed

theorem build_terminates_witness:
  "run [''get'']
       [Path (Str ''/a'') [Fn 1 [], Fn 9 [Path (Str ''/b'') [],
                                                 Verb ''get'' (Str ''/x'') [Fn 2 []]]]] (ApiBuilder None) =
     Inr (projr (run [''get'']
       [Path (Str ''/a'') [Fn 1 [], Fn 9 [Path (Str ''/b'') [],
                                                 Verb ''get'' (Str ''/x'') [Fn 2 []]]]] (ApiBuilder None))) \<and>
   (\<exists>r s'. build [''get''] (projr (run [''get'']
       [Path (Str ''/a'') [Fn 1 [], Fn 9 [Path (Str ''/b'') [],
                                                 Verb ''get'' (Str ''/x'') [Fn 2 []]]]] (ApiBuilder None))) = Some (r, s'))"
proof -
  have "\<not> isl (run [''get'']
       [Path (Str ''/a'') [Fn 1 [], Fn 9 [Path (Str ''/b'') [],
                                                 Verb ''get'' (Str ''/x'') [Fn 2 []]]]] (ApiBuilder None))"
    by code_simp
  then have a: "run [''get'']
       [Path (Str ''/a'') [Fn 1 [], Fn 9 [Path (Str ''/b'') [],
                                                 Verb ''get'' (Str ''/x'') [Fn 2 []]]]] (ApiBuilder None) =
      Inr (projr (run [''get'']
       [Path (Str ''/a'') [Fn 1 [], Fn 9 [Path (Str ''/b'') [],
                                                 Verb ''get'' (Str ''/x'') [Fn 2 []]]]] (ApiBuilder None)))"
    by simp
  show ?thesis
    by (rule conjI [OF a build_terminates [OF a]])
qed

section \<open>Building twice\<close>

text \<open>
  Claim C5. After any sequence of declarations on a new builder, \<^verbatim>\<open>build\<close> returns,
  and a second \<^verbatim>\<open>build\<close> returns too, leaves the state as the first one left it, and
  gives a router without further registrations: the router supplied to the constructor,
  holding what it held after the first \<^verbatim>\<open>build\<close>, or else a new empty one.
\<close>

theorem second_build_registers_nothing:
  assumes "run ms cs (ApiBuilder options) = Inr s"
  shows "\<exists>r s1. build ms s = Some (r, s1) \<and>
           build ms s1 = Some (case options of None \<Rightarrow> [] | Some r0 \<Rightarrow> r, s1)"
proof -
  from reachable_rep [OF assms] obtain fs where rep: "rep s fs" ..
  let ?r = "given_router s @ up_regs ms (heap s) fs"
  from build_rep [OF rep, of ms] obtain h' where
    b1: "build ms s = Some (?r, s\<lparr>heap := h', router := (case router s of None \<Rightarrow> None
                               | Some r0 \<Rightarrow> Some ?r)\<rparr>)"
    and links: "same_links (heap s) h'" and fin: "\<forall>x<fresh s. finished ms h' x"
    by blast
  let ?s1 = "s\<lparr>heap := h', router := (case router s of None \<Rightarrow> None | Some r0 \<Rightarrow> Some ?r)\<rparr>"
  from rep_cursor_chain [OF rep] obtain as c where cur: "currentElement s = Some c"
    and chain: "root_chain (heap s) None (as @ [c])" and lt: "\<forall>x\<in>set (as @ [c]). x < fresh s"
    by blast
  have chain': "root_chain h' None (as @ [c])"
    using chain links root_chain_cong [of "as @ [c]" h' "heap s" None]
    by (simp add: same_links_def)
  have "\<forall>x\<in>set (as @ [c]). finished ms h' x"
    using fin lt by blast
  from finished_exit [OF chain' this]
  have loop: "build_loop ms (Some c) h' rt = Some (h', rt)" for rt .
  have opt: "router s = options"
    using run_router [OF assms] by (simp add: ApiBuilder_def)
  have "build ms ?s1 = Some (case options of None \<Rightarrow> [] | Some r0 \<Rightarrow> ?r, ?s1)"
    using cur loop opt by (cases options) (simp_all add: build_def Let_def)
  with b1 show ?thesis
    by blast
qed

theorem second_build_registers_nothing_witness:
  "run [''get''] 
       [Path (Str ''/a'') [Fn 1 [], Fn 9 [Path (Str ''/b'') [],
                                                 Verb ''get'' (Str ''/x'') [Fn 2 []]]]] (ApiBuilder (Some [(''get'', ''/old'', [])])) =
     Inr (projr (run [''get''] 
       [Path (Str ''/a'') [Fn 1 [], Fn 9 [Path (Str ''/b'') [],
                                                 Verb ''get'' (Str ''/x'') [Fn 2 []]]]] (ApiBuilder (Some [(''get'', ''/old'', [])])))) \<and>
   (\<exists>r s1. build [''get'']
              (projr (run [''get''] 
       [Path (Str ''/a'') [Fn 1 [], Fn 9 [Path (Str ''/b'') [],
                                                 Verb ''get'' (Str ''/x'') [Fn 2 []]]]] (ApiBuilder (Some [(''get'', ''/old'', [])])))) =
              Some (r, s1) \<and>
            build [''get''] s1 =
              Some (case Some [(''get'', ''/old'', [] :: fn list)] of None \<Rightarrow> [] | Some r0 \<Rightarrow> r, s1))"
proof -
  have "\<not> isl (run [''get''] 
       [Path (Str ''/a'') [Fn 1 [], Fn 9 [Path (Str ''/b'') [],
                                                 Verb ''get'' (Str ''/x'') [Fn 2 []]]]] (ApiBuilder (Some [(''get'', ''/old'', [])])))"
    by code_simp
  then have a: "run [''get''] 
       [Path (Str ''/a'') [Fn 1 [], Fn 9 [Path (Str ''/b'') [],
                                                 Verb ''get'' (Str ''/x'') [Fn 2 []]]]] (ApiBuilder (Some [(''get'', ''/old'', [])])) =
      Inr (projr (run [''get''] 
       [Path (Str ''/a'') [Fn 1 [], Fn 9 [Path (Str ''/b'') [],
                                                 Verb ''get'' (Str ''/x'') [Fn 2 []]]]] (ApiBuilder (Some [(''get'', ''/old'', [])]))))"
    by simp
  show ?thesis
    by (rule conjI [OF a second_build_registers_nothing [OF a]])
qed

section \<open>Registered paths\<close>

text \<open>
  Claim C2. After any sequence of declarations on a new builder, \<^verbatim>\<open>build\<close> returns
  the router with new registrations after those it held. Each new registration is for an
  operation declared on some element under one of the methods, and its path is the uri
  fragments along the parent chain of that element, from the root to the element, then the
  fragment of the operation, concatenated with nothing in between. Each such declared
  operation has its registration, at that path.
\<close>

theorem registered_paths:
  assumes "run ms cs (ApiBuilder options) = Inr s"
  shows "\<exists>new s'.
     build ms s = Some ((case options of None \<Rightarrow> [] | Some r0 \<Rightarrow> r0) @ new, s') \<and>
     (\<forall>(v, p, ch)\<in>set new. \<exists>as a oper.
         a < fresh s \<and> root_chain (heap s) None (as @ [a]) \<and>
         v \<in> set ms \<and> oper \<in> set (verbs (heap s a) v) \<and>
         p = concat (map (\<lambda>x. uri (heap s x)) (as @ [a])) @ uri_text (op_uri oper)) \<and>
     (\<forall>a<fresh s. \<forall>v\<in>set ms. \<forall>oper\<in>set (verbs (heap s a) v). \<exists>as ch.
         root_chain (heap s) None (as @ [a]) \<and>
         (v, concat (map (\<lambda>x. uri (heap s x)) (as @ [a])) @ uri_text (op_uri oper), ch) \<in> set new)"
proof -
  let ?h = "heap s"
  from build_blocks [OF assms] obtain fs s' where rep: "rep s fs"
    and b: "build ms s = Some ((case options of None \<Rightarrow> [] | Some r0 \<Rightarrow> r0) @
                              concat (map (block_regs ms ?h) (up_blocks ?h fs)), s')"
    by blast
  let ?new = "concat (map (block_regs ms ?h) (up_blocks ?h fs))"
  let ?S = "\<lambda>v p ch. \<exists>as a oper.
         a < fresh s \<and> root_chain ?h None (as @ [a]) \<and>
         v \<in> set ms \<and> oper \<in> set (verbs (?h a) v) \<and>
         p = concat (map (\<lambda>x. uri (?h x)) (as @ [a])) @ uri_text (op_uri oper)"
  let ?C = "\<lambda>a v oper. \<exists>as ch. root_chain ?h None (as @ [a]) \<and>
         (v, concat (map (\<lambda>x. uri (?h x)) (as @ [a])) @ uri_text (op_uri oper), ch) \<in> set ?new"
  have sound: "?S v p ch" if "(v, p, ch) \<in> set ?new" for v p ch
  proof -
    from that obtain x P m where blk: "(x, P, m) \<in> set (up_blocks ?h fs)"
      and reg: "(v, p, ch) \<in> set (node_regs ms (verbs (?h x)) P m)"
      by (auto simp: block_regs_def)
    from reg obtain oper where v: "v \<in> set ms" and oper: "oper \<in> set (verbs (?h x) v)"
      and p: "p = P @ uri_text (op_uri oper)"
      by (auto simp: node_regs_set)
    from rep_blocks(2) [OF rep blk] obtain as where ch: "root_chain ?h None (as @ [x])"
      and P: "P = joined ?h (as @ [x])"
      by (auto simp: path_to_def)
    have "fst (x, P, m) \<in> fst ` set (up_blocks ?h fs)"
      using blk by (rule imageI)
    then have "x < fresh s"
      unfolding rep_blocks(1) [OF rep] by simp
    with ch v oper p P show ?thesis
      unfolding joined_def by blast
  qed
  have complete: "?C a v oper"
    if "a < fresh s" "v \<in> set ms" "oper \<in> set (verbs (?h a) v)" for a v oper
  proof -
    from that(1) have "a \<in> fst ` set (up_blocks ?h fs)"
      unfolding rep_blocks(1) [OF rep] by simp
    then obtain P m where blk: "(a, P, m) \<in> set (up_blocks ?h fs)"
      by auto
    from rep_blocks(2) [OF rep blk] obtain as where ch: "root_chain ?h None (as @ [a])"
      and P: "P = joined ?h (as @ [a])"
      by (auto simp: path_to_def)
    have "(v, P @ uri_text (op_uri oper), m @ op_middlewares oper) \<in>
          set (node_regs ms (verbs (?h a)) P m)"
      using that(2,3) by (auto simp: node_regs_set)
    then have "(v, P @ uri_text (op_uri oper), m @ op_middlewares oper) \<in> set ?new"
      using blk by (auto simp: block_regs_def)
    with ch P show ?thesis
      unfolding joined_def by blast
  qed
  have 1: "\<forall>(v, p, ch)\<in>set ?new. ?S v p ch"
  proof (rule ballI)
    fix reg assume mem: "reg \<in> set ?new"
    obtain v p ch where reg: "reg = (v, p, ch)"
      by (cases reg) auto
    from sound [OF mem [unfolded reg]] show "case reg of (v, p, ch) \<Rightarrow> ?S v p ch"
      unfolding reg prod.case .
  qed
  have 2: "\<forall>a<fresh s. \<forall>v\<in>set ms. \<forall>oper\<in>set (verbs (?h a) v). ?C a v oper"
    using complete by blast
  show ?thesis
    by (rule exI [of _ ?new], rule exI [of _ s']) (rule conjI [OF b conjI [OF 1 2]])
qed

theorem registered_paths_witness:
  "run [''get'']
     [Verb ''get'' Undefined [Fn 1 []], Verb ''get'' Undefined [Fn 2 []],
      Path (Str ''/a'') [Fn 8 [Verb ''get'' (Str ''/x'') [Fn 3 []]]],
      Path (Str ''/b'') [Fn 9 [Verb ''get'' Undefined [Fn 4 []]]]]
     (ApiBuilder None) = Inr example_state \<and>
   (\<exists>new s'.
        build [''get''] example_state = Some ((case None :: registration list option of None \<Rightarrow> [] | Some r0 \<Rightarrow> r0) @ new, s') \<and>
        (\<forall>(v, p, ch)\<in>set new. \<exists>as a oper.
            a < fresh example_state \<and> root_chain (heap example_state) None (as @ [a]) \<and>
            v \<in> set [''get''] \<and> oper \<in> set (verbs (heap example_state a) v) \<and>
            p = concat (map (\<lambda>x. uri (heap example_state x)) (as @ [a])) @ uri_text (op_uri oper)) \<and>
        (\<forall>a<fresh example_state. \<forall>v\<in>set [''get'']. \<forall>oper\<in>set (verbs (heap example_state a) v). \<exists>as ch.
            root_chain (heap example_state) None (as @ [a]) \<and>
            (v, concat (map (\<lambda>x. uri (heap example_state x)) (as @ [a])) @ uri_text (op_uri oper), ch) \<in> set new)) \<and>
   map_option fst (build [''get''] example_state) =
     Some [(''get'', [], [Fn 2 []]), (''get'', [], [Fn 1 []]),
           (''get'', ''/b'', [Fn 4 []]), (''get'', ''/a/x'', [Fn 3 []])]"
proof -
  have "\<not> isl (run [''get'']
     [Verb ''get'' Undefined [Fn 1 []], Verb ''get'' Undefined [Fn 2 []],
      Path (Str ''/a'') [Fn 8 [Verb ''get'' (Str ''/x'') [Fn 3 []]]],
      Path (Str ''/b'') [Fn 9 [Verb ''get'' Undefined [Fn 4 []]]]]
     (ApiBuilder None))"
    by code_simp
  then have a: "run [''get'']
     [Verb ''get'' Undefined [Fn 1 []], Verb ''get'' Undefined [Fn 2 []],
      Path (Str ''/a'') [Fn 8 [Verb ''get'' (Str ''/x'') [Fn 3 []]]],
      Path (Str ''/b'') [Fn 9 [Verb ''get'' Undefined [Fn 4 []]]]]
     (ApiBuilder None) = Inr example_state"
    unfolding example_state_def by simp
  have b: "map_option fst (build [''get''] example_state) =
     Some [(''get'', [], [Fn 2 []]), (''get'', [], [Fn 1 []]),
           (''get'', ''/b'', [Fn 4 []]), (''get'', ''/a/x'', [Fn 3 []])]"
    by code_simp
  show ?thesis
    by (rule conjI [OF a conjI [OF registered_paths [OF a] b]])
qed

section \<open>Order of registrations\<close>

text \<open>
  Claim C6. After any sequence of declarations on a new builder, in the registrations that
  \<^verbatim>\<open>build\<close> adds: the operations declared on one element under one method are all
  there, next to each other, from the last declared to the first; and of two children of one
  element, the operations of the one declared later and of every element below it are
  registered before the operations of the one declared earlier and of every element below
  it. An element is below a child when the child is on its parent chain.
\<close>

theorem registration_order:
  assumes "run ms cs (ApiBuilder options) = Inr s"
  shows "\<exists>new s'.
     build ms s = Some ((case options of None \<Rightarrow> [] | Some r0 \<Rightarrow> r0) @ new, s') \<and>
     (\<forall>a<fresh s. \<forall>v\<in>set ms. \<exists>as m pre post.
         root_chain (heap s) None (as @ [a]) \<and>
         new = pre @
               map (\<lambda>oper. (v, concat (map (\<lambda>x. uri (heap s x)) (as @ [a])) @
                                 uri_text (op_uri oper),
                              m @ op_middlewares oper))
                 (rev (verbs (heap s a) v)) @
               post) \<and>
     (\<forall>a<fresh s. \<forall>i j. i < j \<and> j < length (children (heap s a)) \<longrightarrow>
        (\<forall>x<fresh s. \<forall>y<fresh s. \<forall>cx cy.
           root_chain (heap s) None (cx @ [x]) \<and> children (heap s a) ! j \<in> set (cx @ [x]) \<and>
           root_chain (heap s) None (cy @ [y]) \<and> children (heap s a) ! i \<in> set (cy @ [y]) \<longrightarrow>
           (\<exists>l1 l2 l3 mx my.
              new = l1 @
                    node_regs ms (verbs (heap s x))
                      (concat (map (\<lambda>z. uri (heap s z)) (cx @ [x]))) mx @
                    l2 @
                    node_regs ms (verbs (heap s y))
                      (concat (map (\<lambda>z. uri (heap s z)) (cy @ [y]))) my @
                    l3)))"
proof -
  let ?h = "heap s"
  from build_blocks [OF assms] obtain fs s' where rep: "rep s fs"
    and b: "build ms s = Some ((case options of None \<Rightarrow> [] | Some r0 \<Rightarrow> r0) @
                              concat (map (block_regs ms ?h) (up_blocks ?h fs)), s')"
    by blast
  let ?bs = "up_blocks ?h fs"
  let ?new = "concat (map (block_regs ms ?h) ?bs)"
  from rep have ok: "frames_ok ?h None fs" and all: "set (all_nodes fs) = {..<fresh s}"
    by (simp_all add: rep_def)
  have wf: "wf_links ?h (fresh s)"
    using assms by (rule reachable_wf_links)
  let ?O = "\<lambda>a v. \<exists>as m pre post.
         root_chain ?h None (as @ [a]) \<and>
         ?new = pre @
               map (\<lambda>oper. (v, concat (map (\<lambda>x. uri (?h x)) (as @ [a])) @
                                 uri_text (op_uri oper),
                              m @ op_middlewares oper))
                 (rev (verbs (?h a) v)) @
               post"
  let ?B = "\<lambda>x cx y cy. \<exists>l1 l2 l3 mx my.
              ?new = l1 @
                    node_regs ms (verbs (?h x)) (concat (map (\<lambda>z. uri (?h z)) (cx @ [x]))) mx @
                    l2 @
                    node_regs ms (verbs (?h y)) (concat (map (\<lambda>z. uri (?h z)) (cy @ [y]))) my @
                    l3"
  have ops: "?O a v" if "a < fresh s" "v \<in> set ms" for a v
  proof -
    from that(1) have "a \<in> fst ` set ?bs"
      unfolding rep_blocks(1) [OF rep] by simp
    then obtain P m where blk: "(a, P, m) \<in> set ?bs"
      by auto
    from rep_blocks(2) [OF rep blk] obtain as where ch: "root_chain ?h None (as @ [a])"
      and P: "P = concat (map (\<lambda>x. uri (?h x)) (as @ [a]))"
      by (auto simp: path_to_def joined_def)
    from blk obtain B1 B2 where "?bs = B1 @ (a, P, m) # B2"
      unfolding in_set_conv_decomp by blast
    then have new: "?new = concat (map (block_regs ms ?h) B1) @
                       node_regs ms (verbs (?h a)) P m @ concat (map (block_regs ms ?h) B2)"
      by (simp add: block_regs_def)
    from node_regs_block [OF that(2), of "verbs (?h a)" P m] obtain pre post where
      "node_regs ms (verbs (?h a)) P m =
         pre @ map (\<lambda>oper. (v, P @ uri_text (op_uri oper), m @ op_middlewares oper))
                 (rev (verbs (?h a) v)) @ post"
      by blast
    then have "?new = (concat (map (block_regs ms ?h) B1) @ pre) @
         map (\<lambda>oper. (v, P @ uri_text (op_uri oper), m @ op_middlewares oper))
                 (rev (verbs (?h a) v)) @ (post @ concat (map (block_regs ms ?h) B2))"
      unfolding new by simp
    with ch show ?thesis
      unfolding P by blast
  qed
  have sib: "?B x cx y cy"
    if "a < fresh s" "i < j" "j < length (children (?h a))" "x < fresh s" "y < fresh s"
      "root_chain ?h None (cx @ [x])" "children (?h a) ! j \<in> set (cx @ [x])"
      "root_chain ?h None (cy @ [y])" "children (?h a) ! i \<in> set (cy @ [y])"
    for a i j x y cx cy
  proof -
    have a: "a \<in> set (all_nodes fs)"
      using that(1) all by simp
    have "splits_at ?h ([] @ up_order fs) (children (?h a) ! j) (children (?h a) ! i)"
      using ok _ _ a that(2,3) by (rule frames_splits_at) (simp_all add: child_closed_def)
    then have "splits_at ?h (up_order fs) (children (?h a) ! j) (children (?h a) ! i)"
      by simp
    from splits_at_order [OF this wf that(6,7,4) that(8,9,5)]
    obtain L1 L2 L3 where "up_order fs = L1 @ [x] @ L2 @ [y] @ L3"
      by blast
    then have "map fst ?bs = L1 @ [x] @ L2 @ [y] @ L3"
      by (simp add: up_blocks_order)
    from blocks_of_order [OF this] obtain B1 B2 B3 b1 b2 where
      bs: "?bs = B1 @ [b1] @ B2 @ [b2] @ B3" and x: "fst b1 = x" and y: "fst b2 = y"
      by blast
    obtain Px mx where b1: "b1 = (x, Px, mx)"
      using x by (cases b1) auto
    obtain Py my where b2: "b2 = (y, Py, my)"
      using y by (cases b2) auto
    have "(x, Px, mx) \<in> set ?bs" "(y, Py, my) \<in> set ?bs"
      unfolding bs b1 b2 by simp_all
    then have "path_to ?h x Px" "path_to ?h y Py"
      using rep_blocks(2) [OF rep] by blast+
    then have Px: "Px = concat (map (\<lambda>z. uri (?h z)) (cx @ [x]))"
      and Py: "Py = concat (map (\<lambda>z. uri (?h z)) (cy @ [y]))"
      using root_chain_unique [OF that(6)] root_chain_unique [OF that(8)]
      by (auto simp: path_to_def joined_def)
    have "?new = concat (map (block_regs ms ?h) B1) @ node_regs ms (verbs (?h x)) Px mx @
        concat (map (block_regs ms ?h) B2) @ node_regs ms (verbs (?h y)) Py my @
        concat (map (block_regs ms ?h) B3)"
      unfolding bs b1 b2 by (simp add: block_regs_def)
    then show ?thesis
      unfolding Px Py by blast
  qed
  have 1: "\<forall>a<fresh s. \<forall>v\<in>set ms. ?O a v"
    using ops by blast
  have 2: "\<forall>a<fresh s. \<forall>i j. i < j \<and> j < length (children (?h a)) \<longrightarrow>
        (\<forall>x<fresh s. \<forall>y<fresh s. \<forall>cx cy.
           root_chain ?h None (cx @ [x]) \<and> children (?h a) ! j \<in> set (cx @ [x]) \<and>
           root_chain ?h None (cy @ [y]) \<and> children (?h a) ! i \<in> set (cy @ [y]) \<longrightarrow>
           ?B x cx y cy)"
    using sib by blast
  show ?thesis
    by (rule exI [of _ ?new], rule exI [of _ s']) (rule conjI [OF b conjI [OF 1 2]])
qed

theorem registration_order_witness:
  "run [''get'']
     [Verb ''get'' Undefined [Fn 1 []], Verb ''get'' Undefined [Fn 2 []],
      Path (Str ''/a'') [Fn 8 [Verb ''get'' (Str ''/x'') [Fn 3 []]]],
      Path (Str ''/b'') [Fn 9 [Verb ''get'' Undefined [Fn 4 []]]]]
     (ApiBuilder None) = Inr example_state \<and>
   (\<exists>new s'.
        build [''get''] example_state = Some ((case None :: registration list option of None \<Rightarrow> [] | Some r0 \<Rightarrow> r0) @ new, s') \<and>
        (\<forall>a<fresh example_state. \<forall>v\<in>set [''get'']. \<exists>as m pre post.
            root_chain (heap example_state) None (as @ [a]) \<and>
            new = pre @
                  map (\<lambda>oper. (v, concat (map (\<lambda>x. uri (heap example_state x)) (as @ [a])) @
                                    uri_text (op_uri oper),
                                 m @ op_middlewares oper))
                    (rev (verbs (heap example_state a) v)) @
                  post) \<and>
        (\<forall>a<fresh example_state. \<forall>i j. i < j \<and> j < length (children (heap example_state a)) \<longrightarrow>
           (\<forall>x<fresh example_state. \<forall>y<fresh example_state. \<forall>cx cy.
              root_chain (heap example_state) None (cx @ [x]) \<and> children (heap example_state a) ! j \<in> set (cx @ [x]) \<and>
              root_chain (heap example_state) None (cy @ [y]) \<and> children (heap example_state a) ! i \<in> set (cy @ [y]) \<longrightarrow>
              (\<exists>l1 l2 l3 mx my.
                 new = l1 @
                       node_regs [''get''] (verbs (heap example_state x))
                         (concat (map (\<lambda>z. uri (heap example_state z)) (cx @ [x]))) mx @
                       l2 @
                       node_regs [''get''] (verbs (heap example_state y))
                         (concat (map (\<lambda>z. uri (heap example_state z)) (cy @ [y]))) my @
                       l3)))) \<and>
   map_option fst (build [''get''] example_state) =
     Some [(''get'', [], [Fn 2 []]), (''get'', [], [Fn 1 []]),
           (''get'', ''/b'', [Fn 4 []]), (''get'', ''/a/x'', [Fn 3 []])]"
proof -
  have "\<not> isl (run [''get'']
     [Verb ''get'' Undefined [Fn 1 []], Verb ''get'' Undefined [Fn 2 []],
      Path (Str ''/a'') [Fn 8 [Verb ''get'' (Str ''/x'') [Fn 3 []]]],
      Path (Str ''/b'') [Fn 9 [Verb ''get'' Undefined [Fn 4 []]]]]
     (ApiBuilder None))"
    by code_simp
  then have a: "run [''get'']
     [Verb ''get'' Undefined [Fn 1 []], Verb ''get'' Undefined [Fn 2 []],
      Path (Str ''/a'') [Fn 8 [Verb ''get'' (Str ''/x'') [Fn 3 []]]],
      Path (Str ''/b'') [Fn 9 [Verb ''get'' Undefined [Fn 4 []]]]]
     (ApiBuilder None) = Inr example_state"
    unfolding example_state_def by simp
  have b: "map_option fst (build [''get''] example_state) =
     Some [(''get'', [], [Fn 2 []]), (''get'', [], [Fn 1 []]),
           (''get'', ''/b'', [Fn 4 []]), (''get'', ''/a/x'', [Fn 3 []])]"
    by code_simp
  show ?thesis
    by (rule conjI [OF a conjI [OF registration_order [OF a] b]])
qed

end
